theory Spec2Isabelle
  imports Main "HOL-Library.Word" "HOL-Library.Sublist"
begin

section \<open>The per-key delay dispatcher of src/delaycall/main.go\<close>

text \<open>
  The program is a set of goroutines over shared state: \<open>processor\<close> (the dispatcher),
  one \<open>userDelayer\<close> per key in delay mode (the workers) and the checking goroutine
  started by \<open>init\<close> (the ordering monitor). It is embedded as an interleaving
  transition system: every goroutine has a program counter naming the source line it
  is about to execute, a scheduler action picks the goroutine that moves, and
  \<open>step\<close> returns \<open>None\<close> when that goroutine is blocked (on the mutex, on a full or
  empty channel) or has returned.

  Time is abstracted: \<open>time.Sleep\<close> is a step without effect on the shared state, and
  the idle timer may deliver on \<open>timer.C\<close> at any moment while it is armed, which
  includes every moment at which a timer of 100 ms really does.
\<close>

subsection \<open>Data\<close>

text \<open>\<open>type Request struct\<close>, lines 13-18. The field \<open>id\<close> is an \<open>int64\<close>.\<close>

record Request =
  UID :: string
  Payload :: string
  NeedsDelay :: bool
  id_req :: "64 word"

text \<open>A buffered channel of requests: its queue and whether it was closed.\<close>

record chan =
  buf :: "Request list"
  closed :: bool

text \<open>\<open>make(chan Request, 1000)\<close>, line 46, and \<open>make(chan int64, 1024)\<close>, line 27.\<close>

definition chan_cap :: nat where
  "chan_cap = 1000"

definition checkCh_cap :: nat where
  "checkCh_cap = 1024"

datatype actor = Dispatcher | Worker nat | Monitor

text \<open>
  What the history variable \<open>trace\<close> records: a call of \<open>callService\<close>, the
  \<open>time.Sleep(delay)\<close> of line 93, and an arming of the idle timer
  (\<open>time.NewTimer(delay)\<close> of line 79, \<open>timer.Reset(delay)\<close> of lines 96 and 104).
\<close>

datatype event = EvCall Request | EvSleep | EvArm

text \<open>
  The ways the Go runtime can abort the program: a send on a closed channel, a close
  of a closed channel, an unlock of an unlocked mutex, and the \<open>panic("")\<close> of line 136.
\<close>

datatype panic = SendOnClosed | CloseOfClosed | UnlockOfUnlocked | MonitorAbort

datatype timer_state = Unset | Armed | Expired | Stopped

text \<open>
  Program counters of \<open>processor\<close> (lines 31-58). The constructor arguments are the
  local variables \<open>req\<close> and \<open>ch\<close> (a channel is its index in \<open>chans\<close>).
\<close>

datatype dpc =
    D_Range                 \<comment> \<open>line 33: \<open>for req := range externalCh\<close>\<close>
  | D_Lock Request          \<comment> \<open>line 34: \<open>mu.Lock()\<close>\<close>
  | D_Lookup Request        \<comment> \<open>lines 35, 36, 44: the lookup and the two tests\<close>
  | D_Send1 Request nat     \<comment> \<open>line 39: \<open>ch <- req\<close>\<close>
  | D_Unlock1               \<comment> \<open>line 41\<close>
  | D_Make Request          \<comment> \<open>line 46: \<open>ch = make(chan Request, 1000)\<close>\<close>
  | D_Install Request nat   \<comment> \<open>line 47: \<open>activeDelayers[req.UID] = ch\<close>\<close>
  | D_Send2 Request nat     \<comment> \<open>line 48: \<open>ch <- req\<close>\<close>
  | D_Unlock2 Request nat   \<comment> \<open>line 49\<close>
  | D_Go Request nat        \<comment> \<open>line 50: \<open>go userDelayer(req.UID, ch)\<close>\<close>
  | D_Unlock3 Request       \<comment> \<open>line 54\<close>
  | D_Call Request          \<comment> \<open>line 56: \<open>callService(req)\<close>\<close>
  | D_Exit                  \<comment> \<open>the range loop has ended\<close>

text \<open>Program counters of \<open>userDelayer\<close> (lines 61-118).\<close>

datatype wpc =
    W_Recv0                 \<comment> \<open>line 65: \<open>req, ok := <-ch\<close>\<close>
  | W_Lock0                 \<comment> \<open>line 67\<close>
  | W_Delete0               \<comment> \<open>line 68\<close>
  | W_Close0                \<comment> \<open>line 69\<close>
  | W_Unlock0               \<comment> \<open>line 70\<close>
  | W_Call0 Request         \<comment> \<open>line 74: \<open>callService(req)\<close>\<close>
  | W_NewTimer              \<comment> \<open>line 79: \<open>timer := time.NewTimer(delay)\<close>\<close>
  | W_Select                \<comment> \<open>line 81: \<open>select\<close>\<close>
  | W_Stop1 "Request option" \<comment> \<open>lines 84-87: \<open>timer.Stop()\<close>, \<open>if !ok { return }\<close>\<close>
  | W_Call1 Request         \<comment> \<open>line 89: \<open>callService(nextReq)\<close>\<close>
  | W_IfDelay Request       \<comment> \<open>line 92: \<open>if nextReq.NeedsDelay\<close>\<close>
  | W_Sleep                 \<comment> \<open>line 93: \<open>time.Sleep(delay)\<close>\<close>
  | W_Reset1                \<comment> \<open>line 96: \<open>timer.Reset(delay)\<close>\<close>
  | W_Lock1                 \<comment> \<open>line 100: \<open>mu.Lock()\<close> after \<open><-timer.C\<close>\<close>
  | W_Len                   \<comment> \<open>line 102: \<open>if len(ch) > 0\<close>\<close>
  | W_Reset2                \<comment> \<open>line 104: \<open>timer.Reset(delay)\<close>\<close>
  | W_Unlock1               \<comment> \<open>line 105\<close>
  | W_Delete1               \<comment> \<open>line 109: \<open>delete(activeDelayers, uid)\<close>\<close>
  | W_Close1                \<comment> \<open>line 110: \<open>close(ch)\<close>\<close>
  | W_Unlock2               \<comment> \<open>line 111\<close>
  | W_Stop2                 \<comment> \<open>line 114: \<open>timer.Stop()\<close>\<close>
  | W_Done                  \<comment> \<open>returned\<close>

text \<open>A running \<open>userDelayer(uid, ch)\<close>: its two parameters, where it is, its timer.\<close>

record worker =
  w_uid :: string
  w_ch :: nat
  w_pc :: wpc
  w_timer :: timer_state

text \<open>
  The shared state. \<open>input\<close> is what \<open>processor\<close> will still read from \<open>externalCh\<close>
  before the channel is closed; \<open>mu\<close> is the mutex (who locked it);
  \<open>activeDelayers\<close> is the routing table; \<open>chans\<close> holds the channels made at line
  46. \<open>consumed\<close>, \<open>trace\<close> and \<open>received\<close> are history variables, written and never
  read by a transition: the requests read so far, the events in the order they
  happened with the goroutine that performed each, and the ids the monitor took from
  \<open>checkCh\<close>.
\<close>

record state =
  input :: "Request list"
  mu :: "actor option"
  activeDelayers :: "string \<rightharpoonup> nat"
  chans :: "chan list"
  checkCh :: "64 word list"
  nextId :: "64 word"
  d_pc :: dpc
  workers :: "worker list"
  panicked :: "panic option"
  consumed :: "Request list"
  trace :: "(actor \<times> event) list"
  received :: "64 word list"

definition init :: "Request list \<Rightarrow> state" where
  "init inp = \<lparr> input = inp, mu = None, activeDelayers = Map.empty, chans = [],
     checkCh = [], nextId = 0, d_pc = D_Range, workers = [], panicked = None,
     consumed = [], trace = [], received = [] \<rparr>"

subsection \<open>Primitive operations\<close>

text \<open>\<open>mu.Lock()\<close> blocks while the mutex is held.\<close>

definition Lock :: "actor \<Rightarrow> state \<Rightarrow> state option" where
  "Lock a s = (if mu s = None then Some (s\<lparr>mu := Some a\<rparr>) else None)"

text \<open>\<open>mu.Unlock()\<close>: a fatal error on an unlocked mutex.\<close>

definition Unlock :: "state \<Rightarrow> state" where
  "Unlock s = (if mu s = None then s\<lparr>panicked := Some UnlockOfUnlocked\<rparr> else s\<lparr>mu := None\<rparr>)"

text \<open>\<open>ch <- r\<close>: panics on a closed channel, blocks while the buffer is full.\<close>

definition send :: "nat \<Rightarrow> Request \<Rightarrow> state \<Rightarrow> state option" where
  "send c r s =
     (if c < length (chans s) then
        (if closed (chans s ! c) then Some (s\<lparr>panicked := Some SendOnClosed\<rparr>)
         else if length (buf (chans s ! c)) < chan_cap
           then Some (s\<lparr>chans := (chans s)[c := (chans s ! c)\<lparr>buf := buf (chans s ! c) @ [r]\<rparr>]\<rparr>)
           else None)
      else None)"

text \<open>
  \<open>r, ok := <-ch\<close>: the oldest buffered request; on an empty buffer \<open>ok = false\<close> when
  the channel is closed, and the receiver blocks when it is open.
\<close>

definition recv :: "nat \<Rightarrow> state \<Rightarrow> (Request option \<times> state) option" where
  "recv c s =
     (if c < length (chans s) then
        (case buf (chans s ! c) of
           r # rest \<Rightarrow> Some (Some r, s\<lparr>chans := (chans s)[c := (chans s ! c)\<lparr>buf := rest\<rparr>]\<rparr>)
         | [] \<Rightarrow> if closed (chans s ! c) then Some (None, s) else None)
      else None)"

text \<open>\<open>close(ch)\<close>: panics on a closed channel.\<close>

definition close_chan :: "nat \<Rightarrow> state \<Rightarrow> state option" where
  "close_chan c s =
     (if c < length (chans s) then
        (if closed (chans s ! c) then Some (s\<lparr>panicked := Some CloseOfClosed\<rparr>)
         else Some (s\<lparr>chans := (chans s)[c := (chans s ! c)\<lparr>closed := True\<rparr>]\<rparr>))
      else None)"

text \<open>
  \<open>callService\<close>, lines 121-127: the send of \<open>r.id\<close> on \<open>checkCh\<close> (which blocks while
  \<open>checkCh\<close> is full), recorded in the trace with its caller; the random sleep that
  follows has no effect on the state.
\<close>

definition callService :: "actor \<Rightarrow> Request \<Rightarrow> state \<Rightarrow> state option" where
  "callService a r s =
     (if length (checkCh s) < checkCh_cap
      then Some (s\<lparr>checkCh := checkCh s @ [id_req r], trace := trace s @ [(a, EvCall r)]\<rparr>)
      else None)"

definition set_wpc :: "nat \<Rightarrow> wpc \<Rightarrow> state \<Rightarrow> state" where
  "set_wpc w pc s = s\<lparr>workers := (workers s)[w := (workers s ! w)\<lparr>w_pc := pc\<rparr>]\<rparr>"

definition set_timer :: "nat \<Rightarrow> timer_state \<Rightarrow> state \<Rightarrow> state" where
  "set_timer w t s = s\<lparr>workers := (workers s)[w := (workers s ! w)\<lparr>w_timer := t\<rparr>]\<rparr>"

text \<open>\<open>time.NewTimer(delay)\<close> and \<open>timer.Reset(delay)\<close>: the timer runs again.\<close>

definition arm :: "nat \<Rightarrow> state \<Rightarrow> state" where
  "arm w s = set_timer w Armed (s\<lparr>trace := trace s @ [(Worker w, EvArm)]\<rparr>)"

subsection \<open>The dispatcher: \<open>processor\<close>, lines 31-58\<close>

definition processor_step :: "state \<Rightarrow> state option" where
  "processor_step s =
     (case d_pc s of
        D_Range \<Rightarrow>
          (case input s of
             [] \<Rightarrow> Some (s\<lparr>d_pc := D_Exit\<rparr>)
           | req # rest \<Rightarrow>
               Some (s\<lparr>input := rest, consumed := consumed s @ [req], d_pc := D_Lock req\<rparr>))
      | D_Lock req \<Rightarrow> map_option (\<lambda>t. t\<lparr>d_pc := D_Lookup req\<rparr>) (Lock Dispatcher s)
      | D_Lookup req \<Rightarrow>
          (case activeDelayers s (UID req) of
             Some ch \<Rightarrow> Some (s\<lparr>d_pc := D_Send1 req ch\<rparr>)
           | None \<Rightarrow>
               if NeedsDelay req then Some (s\<lparr>d_pc := D_Make req\<rparr>)
               else Some (s\<lparr>d_pc := D_Unlock3 req\<rparr>))
      | D_Send1 req ch \<Rightarrow> map_option (\<lambda>t. t\<lparr>d_pc := D_Unlock1\<rparr>) (send ch req s)
      | D_Unlock1 \<Rightarrow> Some ((Unlock s)\<lparr>d_pc := D_Range\<rparr>)
      | D_Make req \<Rightarrow>
          Some (s\<lparr>chans := chans s @ [\<lparr>buf = [], closed = False\<rparr>],
                  d_pc := D_Install req (length (chans s))\<rparr>)
      | D_Install req ch \<Rightarrow>
          Some (s\<lparr>activeDelayers := (activeDelayers s)(UID req \<mapsto> ch), d_pc := D_Send2 req ch\<rparr>)
      | D_Send2 req ch \<Rightarrow> map_option (\<lambda>t. t\<lparr>d_pc := D_Unlock2 req ch\<rparr>) (send ch req s)
      | D_Unlock2 req ch \<Rightarrow> Some ((Unlock s)\<lparr>d_pc := D_Go req ch\<rparr>)
      | D_Go req ch \<Rightarrow>
          Some (s\<lparr>workers := workers s @
                    [\<lparr>w_uid = UID req, w_ch = ch, w_pc = W_Recv0, w_timer = Unset\<rparr>],
                  d_pc := D_Range\<rparr>)
      | D_Unlock3 req \<Rightarrow> Some ((Unlock s)\<lparr>d_pc := D_Call req\<rparr>)
      | D_Call req \<Rightarrow> map_option (\<lambda>t. t\<lparr>d_pc := D_Range\<rparr>) (callService Dispatcher req s)
      | D_Exit \<Rightarrow> None)"

subsection \<open>A worker: \<open>userDelayer\<close>, lines 61-118\<close>

text \<open>
  At the \<open>select\<close> of line 81 the scheduler chooses the case: \<open>Recv\<close> is enabled when
  the receive from \<open>ch\<close> can proceed, \<open>Timeout\<close> when the timer is armed. Elsewhere the
  choice is ignored.
\<close>

datatype choice = Recv | Timeout

definition userDelayer_step :: "nat \<Rightarrow> choice \<Rightarrow> state \<Rightarrow> state option" where
  "userDelayer_step w c s =
     (if w < length (workers s) then
        (case w_pc (workers s ! w) of
           W_Recv0 \<Rightarrow>
             (case recv (w_ch (workers s ! w)) s of
                None \<Rightarrow> None
              | Some (Some req, t) \<Rightarrow> Some (set_wpc w (W_Call0 req) t)
              | Some (None, t) \<Rightarrow> Some (set_wpc w W_Lock0 t))
         | W_Lock0 \<Rightarrow> map_option (set_wpc w W_Delete0) (Lock (Worker w) s)
         | W_Delete0 \<Rightarrow>
             Some (set_wpc w W_Close0
               (s\<lparr>activeDelayers := (activeDelayers s)(w_uid (workers s ! w) := None)\<rparr>))
         | W_Close0 \<Rightarrow> map_option (set_wpc w W_Unlock0) (close_chan (w_ch (workers s ! w)) s)
         | W_Unlock0 \<Rightarrow> Some (set_wpc w W_Done (Unlock s))
         | W_Call0 req \<Rightarrow> map_option (set_wpc w W_NewTimer) (callService (Worker w) req s)
         | W_NewTimer \<Rightarrow> Some (set_wpc w W_Select (arm w s))
         | W_Select \<Rightarrow>
             (case c of
                Recv \<Rightarrow>
                  (case recv (w_ch (workers s ! w)) s of
                     None \<Rightarrow> None
                   | Some (ro, t) \<Rightarrow> Some (set_wpc w (W_Stop1 ro) t))
              | Timeout \<Rightarrow>
                  if w_timer (workers s ! w) = Armed
                  then Some (set_wpc w W_Lock1 (set_timer w Expired s))
                  else None)
         | W_Stop1 ro \<Rightarrow>
             Some (set_wpc w (case ro of None \<Rightarrow> W_Done | Some r \<Rightarrow> W_Call1 r)
               (set_timer w Stopped s))
         | W_Call1 r \<Rightarrow> map_option (set_wpc w (W_IfDelay r)) (callService (Worker w) r s)
         | W_IfDelay r \<Rightarrow> Some (set_wpc w (if NeedsDelay r then W_Sleep else W_Reset1) s)
         | W_Sleep \<Rightarrow> Some (set_wpc w W_Reset1 (s\<lparr>trace := trace s @ [(Worker w, EvSleep)]\<rparr>))
         | W_Reset1 \<Rightarrow> Some (set_wpc w W_Select (arm w s))
         | W_Lock1 \<Rightarrow> map_option (set_wpc w W_Len) (Lock (Worker w) s)
         | W_Len \<Rightarrow>
             (if w_ch (workers s ! w) < length (chans s) then
                Some (set_wpc w
                  (if length (buf (chans s ! w_ch (workers s ! w))) > 0 then W_Reset2
                   else W_Delete1) s)
              else None)
         | W_Reset2 \<Rightarrow> Some (set_wpc w W_Unlock1 (arm w s))
         | W_Unlock1 \<Rightarrow> Some (set_wpc w W_Select (Unlock s))
         | W_Delete1 \<Rightarrow>
             Some (set_wpc w W_Close1
               (s\<lparr>activeDelayers := (activeDelayers s)(w_uid (workers s ! w) := None)\<rparr>))
         | W_Close1 \<Rightarrow> map_option (set_wpc w W_Unlock2) (close_chan (w_ch (workers s ! w)) s)
         | W_Unlock2 \<Rightarrow> Some (set_wpc w W_Stop2 (Unlock s))
         | W_Stop2 \<Rightarrow> Some (set_wpc w W_Done (set_timer w Stopped s))
         | W_Done \<Rightarrow> None)
      else None)"

subsection \<open>The ordering monitor: the goroutine of \<open>init\<close>, lines 129-142\<close>

definition monitor_step :: "state \<Rightarrow> state option" where
  "monitor_step s =
     (case checkCh s of
        [] \<Rightarrow> None
      | i # rest \<Rightarrow>
          if nextId s \<noteq> i
          then Some (s\<lparr>checkCh := rest, received := received s @ [i],
                       panicked := Some MonitorAbort\<rparr>)
          else Some (s\<lparr>checkCh := rest, received := received s @ [i], nextId := i + 1\<rparr>))"

subsection \<open>The interleaving\<close>

datatype action = ADisp | AWorker nat choice | AMon

text \<open>One scheduled step. After a panic the program is gone: nothing moves.\<close>

definition step :: "action \<Rightarrow> state \<Rightarrow> state option" where
  "step a s =
     (if panicked s \<noteq> None then None
      else case a of
        ADisp \<Rightarrow> processor_step s
      | AWorker w c \<Rightarrow> userDelayer_step w c s
      | AMon \<Rightarrow> monitor_step s)"

fun run :: "action list \<Rightarrow> state \<Rightarrow> state option" where
  "run [] s = Some s"
| "run (a # as) s = (case step a s of None \<Rightarrow> None | Some t \<Rightarrow> run as t)"

subsection \<open>Observations on a state\<close>

text \<open>The calls of \<open>callService\<close> in a trace, oldest first, each with its caller.\<close>

fun sink_calls :: "(actor \<times> event) list \<Rightarrow> (actor \<times> Request) list" where
  "sink_calls [] = []"
| "sink_calls ((a, EvCall r) # t) = (a, r) # sink_calls t"
| "sink_calls ((a, EvSleep) # t) = sink_calls t"
| "sink_calls ((a, EvArm) # t) = sink_calls t"

text \<open>The requests handed to the execution sink so far, in the order of the calls.\<close>

definition executed :: "state \<Rightarrow> Request list" where
  "executed s = map snd (sink_calls (trace s))"

text \<open>The events of worker \<open>w\<close>, oldest first.\<close>

definition wtrace :: "nat \<Rightarrow> state \<Rightarrow> event list" where
  "wtrace w s = map snd (filter (\<lambda>p. fst p = Worker w) (trace s))"

definition for_key :: "string \<Rightarrow> Request list \<Rightarrow> Request list" where
  "for_key k rs = filter (\<lambda>r. UID r = k) rs"

text \<open>The request a goroutine has taken and not yet passed on.\<close>

fun dheld :: "dpc \<Rightarrow> Request list" where
  "dheld (D_Lock r) = [r]"
| "dheld (D_Lookup r) = [r]"
| "dheld (D_Send1 r c) = [r]"
| "dheld (D_Make r) = [r]"
| "dheld (D_Install r c) = [r]"
| "dheld (D_Send2 r c) = [r]"
| "dheld (D_Unlock3 r) = [r]"
| "dheld (D_Call r) = [r]"
| "dheld D_Range = []"
| "dheld D_Unlock1 = []"
| "dheld (D_Unlock2 r c) = []"
| "dheld (D_Go r c) = []"
| "dheld D_Exit = []"

fun wheld :: "wpc \<Rightarrow> Request list" where
  "wheld (W_Call0 r) = [r]"
| "wheld (W_Stop1 (Some r)) = [r]"
| "wheld (W_Call1 r) = [r]"
| "wheld _ = []"

text \<open>The lines between a \<open>mu.Lock()\<close> and its \<open>mu.Unlock()\<close>.\<close>

fun dlocked :: "dpc \<Rightarrow> bool" where
  "dlocked (D_Lookup r) = True"
| "dlocked (D_Send1 r c) = True"
| "dlocked D_Unlock1 = True"
| "dlocked (D_Make r) = True"
| "dlocked (D_Install r c) = True"
| "dlocked (D_Send2 r c) = True"
| "dlocked (D_Unlock2 r c) = True"
| "dlocked (D_Unlock3 r) = True"
| "dlocked _ = False"

fun wlocked :: "wpc \<Rightarrow> bool" where
  "wlocked W_Delete0 = True"
| "wlocked W_Close0 = True"
| "wlocked W_Unlock0 = True"
| "wlocked W_Len = True"
| "wlocked W_Reset2 = True"
| "wlocked W_Unlock1 = True"
| "wlocked W_Delete1 = True"
| "wlocked W_Close1 = True"
| "wlocked W_Unlock2 = True"
| "wlocked _ = False"

text \<open>
  A worker services its key from the moment it is spawned until it executes
  \<open>delete(activeDelayers, uid)\<close>; after the delete it only closes its queue, unlocks
  and returns.
\<close>

fun servicing :: "wpc \<Rightarrow> bool" where
  "servicing W_Close0 = False"
| "servicing W_Unlock0 = False"
| "servicing W_Close1 = False"
| "servicing W_Unlock2 = False"
| "servicing W_Stop2 = False"
| "servicing W_Done = False"
| "servicing _ = True"

text \<open>After \<open>close(ch)\<close> of line 110.\<close>

fun wclosed :: "wpc \<Rightarrow> bool" where
  "wclosed W_Unlock2 = True"
| "wclosed W_Stop2 = True"
| "wclosed W_Done = True"
| "wclosed _ = False"

text \<open>After the test of line 102 found the queue empty.\<close>

fun wdrained :: "wpc \<Rightarrow> bool" where
  "wdrained W_Delete1 = True"
| "wdrained W_Close1 = True"
| "wdrained W_Unlock2 = True"
| "wdrained W_Stop2 = True"
| "wdrained W_Done = True"
| "wdrained _ = False"

text \<open>Lines 66-72 and the \<open>return\<close> of line 86 are taken only on a closed queue.\<close>

fun on_closed_path :: "wpc \<Rightarrow> bool" where
  "on_closed_path W_Lock0 = True"
| "on_closed_path W_Delete0 = True"
| "on_closed_path W_Close0 = True"
| "on_closed_path W_Unlock0 = True"
| "on_closed_path (W_Stop1 None) = True"
| "on_closed_path _ = False"

text \<open>Between lines 46 and 50 the dispatcher holds a queue that has no worker yet.\<close>

fun dnew :: "dpc \<Rightarrow> nat option" where
  "dnew (D_Install r c) = Some c"
| "dnew (D_Send2 r c) = Some c"
| "dnew (D_Unlock2 r c) = Some c"
| "dnew (D_Go r c) = Some c"
| "dnew _ = None"

text \<open>The entry the dispatcher has installed for a worker it has not yet spawned.\<close>

fun dinstalled :: "dpc \<Rightarrow> (string \<times> nat) option" where
  "dinstalled (D_Send2 r c) = Some (UID r, c)"
| "dinstalled (D_Unlock2 r c) = Some (UID r, c)"
| "dinstalled (D_Go r c) = Some (UID r, c)"
| "dinstalled _ = None"

subsection \<open>Invariants\<close>

text \<open>The mutex is held exactly by the goroutine inside a critical section.\<close>

definition inv_lock :: "state \<Rightarrow> bool" where
  "inv_lock s \<longleftrightarrow>
     (dlocked (d_pc s) \<longleftrightarrow> mu s = Some Dispatcher) \<and>
     (\<forall>w < length (workers s). wlocked (w_pc (workers s ! w)) \<longleftrightarrow> mu s = Some (Worker w)) \<and>
     (\<forall>w. mu s = Some (Worker w) \<longrightarrow> w < length (workers s)) \<and>
     mu s \<noteq> Some Monitor"

text \<open>Worker \<open>w\<close> owns queue \<open>w\<close>; one more queue exists between lines 46 and 50.\<close>

definition inv_shape :: "state \<Rightarrow> bool" where
  "inv_shape s \<longleftrightarrow>
     (\<forall>w < length (workers s). w_ch (workers s ! w) = w) \<and>
     length (chans s) = length (workers s) + (case dnew (d_pc s) of None \<Rightarrow> 0 | Some c \<Rightarrow> 1) \<and>
     (\<forall>c. dnew (d_pc s) = Some c \<longrightarrow> c = length (workers s))"

definition inv_pcs :: "state \<Rightarrow> bool" where
  "inv_pcs s \<longleftrightarrow> (\<forall>w < length (workers s). \<not> on_closed_path (w_pc (workers s ! w)))"

text \<open>
  The routing table holds exactly the entries of the servicing workers, and the one
  the dispatcher has installed at line 47 for the worker it spawns at line 50.
\<close>

definition inv_table :: "state \<Rightarrow> bool" where
  "inv_table s \<longleftrightarrow>
     (\<forall>w < length (workers s). servicing (w_pc (workers s ! w)) \<longrightarrow>
        activeDelayers s (w_uid (workers s ! w)) = Some w) \<and>
     (\<forall>k c. activeDelayers s k = Some c \<longrightarrow>
        (c < length (workers s) \<and> w_uid (workers s ! c) = k \<and> servicing (w_pc (workers s ! c))) \<or>
        dinstalled (d_pc s) = Some (k, c))"

text \<open>What the dispatcher knows at each line about the entry of the key of \<open>req\<close>.\<close>

fun dfacts :: "dpc \<Rightarrow> state \<Rightarrow> bool" where
  "dfacts (D_Send1 r c) s = (activeDelayers s (UID r) = Some c)"
| "dfacts (D_Make r) s = (activeDelayers s (UID r) = None)"
| "dfacts (D_Install r c) s = (activeDelayers s (UID r) = None \<and> buf (chans s ! c) = [])"
| "dfacts (D_Send2 r c) s = (activeDelayers s (UID r) = Some c \<and> buf (chans s ! c) = [])"
| "dfacts (D_Unlock2 r c) s = (activeDelayers s (UID r) = Some c \<and> buf (chans s ! c) = [r])"
| "dfacts (D_Go r c) s = (activeDelayers s (UID r) = Some c \<and> buf (chans s ! c) = [r])"
| "dfacts (D_Unlock3 r) s = (activeDelayers s (UID r) = None)"
| "dfacts (D_Call r) s = (activeDelayers s (UID r) = None)"
| "dfacts _ s = True"

definition inv_disp :: "state \<Rightarrow> bool" where
  "inv_disp s \<longleftrightarrow> dfacts (d_pc s) s"

text \<open>
  A queue is closed exactly when its worker is past line 110, it is empty from the
  test of line 102 on, and it only ever holds requests of its worker's key.
\<close>

definition inv_chan :: "state \<Rightarrow> bool" where
  "inv_chan s \<longleftrightarrow>
     (\<forall>c < length (chans s).
        (closed (chans s ! c) \<longleftrightarrow> c < length (workers s) \<and> wclosed (w_pc (workers s ! c)))) \<and>
     (\<forall>c < length (workers s).
        (wdrained (w_pc (workers s ! c)) \<longrightarrow> buf (chans s ! c) = []) \<and>
        (\<forall>r \<in> set (wheld (w_pc (workers s ! c)) @ buf (chans s ! c)).
           UID r = w_uid (workers s ! c)))"

definition inv_panic :: "state \<Rightarrow> bool" where
  "inv_panic s \<longleftrightarrow> panicked s = None \<or> panicked s = Some MonitorAbort"

definition inv_core :: "state \<Rightarrow> bool" where
  "inv_core s \<longleftrightarrow>
     inv_lock s \<and> inv_shape s \<and> inv_pcs s \<and> inv_table s \<and> inv_disp s \<and> inv_chan s \<and> inv_panic s"

text \<open>
  The requests of key \<open>k\<close> that were read and not yet handed to the sink, oldest first:
  what the worker of the key holds, then its queue, then what the dispatcher holds.
\<close>

definition pendingK :: "string \<Rightarrow> state \<Rightarrow> Request list" where
  "pendingK k s =
     (case activeDelayers s k of
        None \<Rightarrow> []
      | Some c \<Rightarrow>
          (if c < length (workers s) then wheld (w_pc (workers s ! c)) else []) @
          buf (chans s ! c)) @
     for_key k (dheld (d_pc s))"

text \<open>
  Per key, the requests read so far are those executed so far followed by those
  pending, in this order.
\<close>

definition inv_order :: "Request list \<Rightarrow> state \<Rightarrow> bool" where
  "inv_order inp s \<longleftrightarrow>
     consumed s @ input s = inp \<and>
     (\<forall>k. for_key k (consumed s) = for_key k (executed s) @ pendingK k s)"

text \<open>
  The monitor has taken, in order, the ids of the calls made so far, but for those
  still buffered in \<open>checkCh\<close>; while it has not aborted, the ids it took are
  \<open>0, 1, 2, ...\<close> and \<open>nextId\<close> is their number.
\<close>

definition inv_mon :: "state \<Rightarrow> bool" where
  "inv_mon s \<longleftrightarrow>
     map id_req (executed s) = received s @ checkCh s \<and>
     (panicked s = None \<longrightarrow>
        nextId s = of_nat (length (received s)) \<and>
        received s = map of_nat [0 ..< length (received s)])"

text \<open>
  What may follow what in the events of one worker: a call for a delay-flagged request
  is followed by the sleep, and the sleep by the re-arming of the timer.
\<close>

fun follows :: "event \<Rightarrow> event \<Rightarrow> bool" where
  "follows (EvCall r) e = (NeedsDelay r \<longrightarrow> e = EvSleep)"
| "follows EvSleep e = (e = EvArm)"
| "follows EvArm e = True"

definition throttled :: "event list \<Rightarrow> bool" where
  "throttled h = successively follows h"

text \<open>A worker starts with the call for its seed request and the arming of its timer.\<close>

fun seeded :: "event list \<Rightarrow> bool" where
  "seeded [] = True"
| "seeded [e] = (\<exists>r. e = EvCall r)"
| "seeded (e # e' # h) = ((\<exists>r. e = EvCall r) \<and> e' = EvArm)"

text \<open>The events of a worker so far, by the line it is at.\<close>

fun whist_ok :: "wpc \<Rightarrow> event list \<Rightarrow> bool" where
  "whist_ok W_Recv0 h = (h = [])"
| "whist_ok (W_Call0 r) h = (h = [])"
| "whist_ok W_NewTimer h = (length h = 1)"
| "whist_ok (W_IfDelay r) h = (2 < length h \<and> last h = EvCall r)"
| "whist_ok W_Sleep h = (2 < length h \<and> (\<exists>r. last h = EvCall r \<and> NeedsDelay r))"
| "whist_ok W_Reset1 h =
     (2 < length h \<and> (last h = EvSleep \<or> (\<exists>r. last h = EvCall r \<and> \<not> NeedsDelay r)))"
| "whist_ok pc h = (1 < length h \<and> last h = EvArm)"

definition inv_hist :: "state \<Rightarrow> bool" where
  "inv_hist s \<longleftrightarrow>
     (\<forall>w. length (workers s) \<le> w \<longrightarrow> wtrace w s = []) \<and>
     (\<forall>w < length (workers s).
        seeded (wtrace w s) \<and> throttled (tl (wtrace w s)) \<and>
        whist_ok (w_pc (workers s ! w)) (wtrace w s))"

text \<open>No goroutine can move.\<close>

definition stuck :: "state \<Rightarrow> bool" where
  "stuck s \<longleftrightarrow>
     step ADisp s = None \<and> step AMon s = None \<and>
     (\<forall>w < length (workers s).
        step (AWorker w Recv) s = None \<and> step (AWorker w Timeout) s = None)"

subsection \<open>Concrete inputs\<close>

definition rq :: "string \<Rightarrow> string \<Rightarrow> bool \<Rightarrow> nat \<Rightarrow> Request" where
  "rq k p d i = \<lparr>UID = k, Payload = p, NeedsDelay = d, id_req = of_nat i\<rparr>"

text \<open>\<open>n\<close> delay-flagged requests of one key, numbered from \<open>i\<close>.\<close>

definition burst :: "nat \<Rightarrow> nat \<Rightarrow> Request list" where
  "burst i n = map (rq ''user1'' ''task'' True) [i ..< i + n]"

text \<open>Let the dispatcher take \<open>n\<close> steps.\<close>

definition disp :: "nat \<Rightarrow> action list" where
  "disp n = replicate n ADisp"

text \<open>Let worker \<open>w\<close> take \<open>n\<close> steps, receiving at the \<open>select\<close>.\<close>

definition work :: "nat \<Rightarrow> nat \<Rightarrow> action list" where
  "work w n = replicate n (AWorker w Recv)"

text \<open>
  Three requests of one key: \<open>a\<close> without the delay flag, \<open>b\<close> with it, \<open>c\<close> without.
\<close>

definition demo_input :: "Request list" where
  "demo_input = [rq ''K'' ''a'' False 0, rq ''K'' ''b'' True 1, rq ''K'' ''c'' False 2]"

text \<open>
  The dispatcher executes \<open>a\<close> itself (5 steps), spawns a worker for \<open>b\<close> (8 steps)
  and, at the end of the next 3 steps, is about to enqueue \<open>c\<close>.
\<close>

definition demo_sched1 :: "action list" where
  "demo_sched1 = disp 5 @ disp 8 @ disp 3"

text \<open>It then enqueues \<open>c\<close> and the worker executes \<open>b\<close> and \<open>c\<close>.\<close>

definition demo_sched :: "action list" where
  "demo_sched = demo_sched1 @ disp 2 @ work 0 6"

definition demo_state1 :: state where
  "demo_state1 = the (run demo_sched1 (init demo_input))"

definition demo_state :: state where
  "demo_state = the (run demo_sched (init demo_input))"

text \<open>After the run above the monitor takes the three ids.\<close>

definition demo_state_mon :: state where
  "demo_state_mon = the (run (demo_sched @ [AMon, AMon, AMon]) (init demo_input))"

text \<open>
  Two keys: the dispatcher spawns a worker for the first request and executes the
  second itself before that worker has run; the monitor is about to take the id 1.
\<close>

definition two_key_input :: "Request list" where
  "two_key_input = [rq ''A'' ''x'' True 0, rq ''B'' ''y'' False 1]"

definition two_key_state :: state where
  "two_key_state = the (run (disp 8 @ disp 5) (init two_key_input))"

text \<open>
  Two delay-flagged requests of one key: the dispatcher spawns a worker for the first
  (8 steps) and enqueues the second (5 steps); the worker executes the first, arms its
  timer, receives the second, executes it, sleeps and re-arms the timer (9 steps).
\<close>

definition throttle_input :: "Request list" where
  "throttle_input = [rq ''K'' ''a'' True 0, rq ''K'' ''b'' True 1]"

definition throttle_state :: state where
  "throttle_state = the (run (disp 8 @ disp 5 @ work 0 9) (init throttle_input))"

text \<open>The dispatcher has read a request, taken the mutex and is at the lookup.\<close>

definition lookup_state :: "Request \<Rightarrow> state" where
  "lookup_state r = the (run (disp 2) (init [r]))"

text \<open>
  A worker whose timer has fired, with an empty queue and with a queue that holds one
  request: the dispatcher has spawned it, it has executed its seed request and armed
  the timer; in the second state the dispatcher has then enqueued another request.
\<close>

definition fired_empty :: state where
  "fired_empty = the (run (disp 8 @ work 0 3 @ [AWorker 0 Timeout]) (init [rq ''K'' ''a'' True 0]))"

definition fired_nonempty :: state where
  "fired_nonempty =
     the (run (disp 8 @ work 0 3 @ disp 5 @ [AWorker 0 Timeout]) (init throttle_input))"

text \<open>
  A request that is read while its key has an entry and looked up after the entry is
  gone. The dispatcher spawns a worker for \<open>a\<close> (8 steps), the worker executes \<open>a\<close> and
  arms its timer (3 steps), and the dispatcher reads \<open>b\<close> at line 33 (1 step). Then the
  timer fires and the worker takes the mutex, finds its queue empty, deletes the entry,
  closes the queue and releases the mutex (6 steps); the dispatcher takes the mutex,
  looks up the key of \<open>b\<close>, releases the mutex and calls the sink (4 steps).
\<close>

definition race_input :: "Request list" where
  "race_input = [rq ''K'' ''a'' True 0, rq ''K'' ''b'' False 1]"

definition race_read_sched :: "action list" where
  "race_read_sched = disp 8 @ work 0 3 @ disp 1"

definition race_expire_sched :: "action list" where
  "race_expire_sched = [AWorker 0 Timeout] @ work 0 5 @ disp 4"

definition race_read :: state where
  "race_read = the (run race_read_sched (init race_input))"

definition race_state :: state where
  "race_state = the (run race_expire_sched race_read)"

text \<open>The schedule runs from \<open>s\<close>, and in none of its states is \<open>r\<close> on a queue.\<close>

definition never_queued :: "Request \<Rightarrow> action list \<Rightarrow> state \<Rightarrow> bool" where
  "never_queued r sched s =
     list_all (\<lambda>n. case run (take n sched) s of
                       None \<Rightarrow> False
                     | Some t \<Rightarrow> list_all (\<lambda>c. r \<notin> set (buf c)) (chans t))
       [0 ..< Suc (length sched)]"

text \<open>
  A burst of 1002 requests of one key. The dispatcher spawns a worker for the first (8
  steps); the worker executes it and arms its timer (3 steps); the timer fires and the
  worker goes for the mutex (1 step). Before the worker gets the mutex the dispatcher
  enqueues the next 1000 requests (5 steps each), reads the last one, takes the mutex
  and finds the entry (3 steps). The monitor takes the one id sent so far.
\<close>

definition deadlock_sched :: "action list" where
  "deadlock_sched =
     disp 8 @ work 0 3 @ [AWorker 0 Timeout] @ disp (5 * 1000) @ disp 3 @ [AMon]"

definition deadlock_state :: state where
  "deadlock_state = the (run deadlock_sched (init (burst 0 1002)))"

section \<open>Steps, case by case\<close>

lemma processor_stepE:
  assumes "processor_step s = Some t"
  obtains
    (Range_end) "d_pc s = D_Range" "input s = []" "t = s\<lparr>d_pc := D_Exit\<rparr>"
  | (Range_read) req rest where "d_pc s = D_Range" "input s = req # rest"
      "t = s\<lparr>input := rest, consumed := consumed s @ [req], d_pc := D_Lock req\<rparr>"
  | (Lock) req where "d_pc s = D_Lock req" "mu s = None"
      "t = s\<lparr>mu := Some Dispatcher, d_pc := D_Lookup req\<rparr>"
  | (Lookup_hit) req ch where "d_pc s = D_Lookup req" "activeDelayers s (UID req) = Some ch"
      "t = s\<lparr>d_pc := D_Send1 req ch\<rparr>"
  | (Lookup_delay) req where "d_pc s = D_Lookup req" "activeDelayers s (UID req) = None"
      "NeedsDelay req" "t = s\<lparr>d_pc := D_Make req\<rparr>"
  | (Lookup_direct) req where "d_pc s = D_Lookup req" "activeDelayers s (UID req) = None"
      "\<not> NeedsDelay req" "t = s\<lparr>d_pc := D_Unlock3 req\<rparr>"
  | (Send1_closed) req ch where "d_pc s = D_Send1 req ch" "ch < length (chans s)"
      "closed (chans s ! ch)" "t = s\<lparr>panicked := Some SendOnClosed, d_pc := D_Unlock1\<rparr>"
  | (Send1) req ch where "d_pc s = D_Send1 req ch" "ch < length (chans s)"
      "\<not> closed (chans s ! ch)" "length (buf (chans s ! ch)) < chan_cap"
      "t = s\<lparr>chans := (chans s)[ch := (chans s ! ch)\<lparr>buf := buf (chans s ! ch) @ [req]\<rparr>],
              d_pc := D_Unlock1\<rparr>"
  | (Unlock1) "d_pc s = D_Unlock1" "t = (Unlock s)\<lparr>d_pc := D_Range\<rparr>"
  | (Make) req where "d_pc s = D_Make req"
      "t = s\<lparr>chans := chans s @ [\<lparr>buf = [], closed = False\<rparr>],
              d_pc := D_Install req (length (chans s))\<rparr>"
  | (Install) req ch where "d_pc s = D_Install req ch"
      "t = s\<lparr>activeDelayers := (activeDelayers s)(UID req \<mapsto> ch), d_pc := D_Send2 req ch\<rparr>"
  | (Send2_closed) req ch where "d_pc s = D_Send2 req ch" "ch < length (chans s)"
      "closed (chans s ! ch)" "t = s\<lparr>panicked := Some SendOnClosed, d_pc := D_Unlock2 req ch\<rparr>"
  | (Send2) req ch where "d_pc s = D_Send2 req ch" "ch < length (chans s)"
      "\<not> closed (chans s ! ch)" "length (buf (chans s ! ch)) < chan_cap"
      "t = s\<lparr>chans := (chans s)[ch := (chans s ! ch)\<lparr>buf := buf (chans s ! ch) @ [req]\<rparr>],
              d_pc := D_Unlock2 req ch\<rparr>"
  | (Unlock2) req ch where "d_pc s = D_Unlock2 req ch" "t = (Unlock s)\<lparr>d_pc := D_Go req ch\<rparr>"
  | (Go) req ch where "d_pc s = D_Go req ch"
      "t = s\<lparr>workers := workers s @
                [\<lparr>w_uid = UID req, w_ch = ch, w_pc = W_Recv0, w_timer = Unset\<rparr>],
              d_pc := D_Range\<rparr>"
  | (Unlock3) req where "d_pc s = D_Unlock3 req" "t = (Unlock s)\<lparr>d_pc := D_Call req\<rparr>"
  | (Call) req where "d_pc s = D_Call req" "length (checkCh s) < checkCh_cap"
      "t = s\<lparr>checkCh := checkCh s @ [id_req req],
              trace := trace s @ [(Dispatcher, EvCall req)], d_pc := D_Range\<rparr>"
proof (cases "d_pc s")
  case D_Range
  then show ?thesis using assms Range_end Range_read
    by (auto simp: processor_step_def split: list.splits)
next
  case (D_Lock req)
  then show ?thesis using assms Lock
    by (auto simp: processor_step_def Lock_def split: if_splits)
next
  case (D_Lookup req)
  then show ?thesis using assms Lookup_hit Lookup_delay Lookup_direct
    by (auto simp: processor_step_def split: option.splits if_splits)
next
  case (D_Send1 req ch)
  then show ?thesis using assms Send1_closed Send1
    by (auto simp: processor_step_def send_def split: if_splits)
next
  case D_Unlock1
  then show ?thesis using assms Unlock1 by (auto simp: processor_step_def)
next
  case (D_Make req)
  then show ?thesis using assms Make by (auto simp: processor_step_def)
next
  case (D_Install req ch)
  then show ?thesis using assms Install by (auto simp: processor_step_def)
next
  case (D_Send2 req ch)
  then show ?thesis using assms Send2_closed Send2
    by (auto simp: processor_step_def send_def split: if_splits)
next
  case (D_Unlock2 req ch)
  then show ?thesis using assms Unlock2 by (auto simp: processor_step_def)
next
  case (D_Go req ch)
  then show ?thesis using assms Go by (auto simp: processor_step_def)
next
  case (D_Unlock3 req)
  then show ?thesis using assms Unlock3 by (auto simp: processor_step_def)
next
  case (D_Call req)
  then show ?thesis using assms Call
    by (auto simp: processor_step_def callService_def split: if_splits)
next
  case D_Exit
  then show ?thesis using assms by (auto simp: processor_step_def)
qed


lemma userDelayer_stepE:
  assumes "userDelayer_step w c s = Some t"
  obtains
    (Recv0) req rest where "w < length (workers s)" "w_pc (workers s ! w) = W_Recv0"
      "w_ch (workers s ! w) < length (chans s)"
      "buf (chans s ! w_ch (workers s ! w)) = req # rest"
      "t = set_wpc w (W_Call0 req)
             (s\<lparr>chans := (chans s)[w_ch (workers s ! w) :=
                (chans s ! w_ch (workers s ! w))\<lparr>buf := rest\<rparr>]\<rparr>)"
  | (Recv0_closed) "w < length (workers s)" "w_pc (workers s ! w) = W_Recv0"
      "w_ch (workers s ! w) < length (chans s)"
      "closed (chans s ! w_ch (workers s ! w))"
      "t = set_wpc w W_Lock0 s"
  | (Lock0) "w < length (workers s)" "w_pc (workers s ! w) = W_Lock0" "mu s = None"
      "t = set_wpc w W_Delete0 (s\<lparr>mu := Some (Worker w)\<rparr>)"
  | (Delete0) "w < length (workers s)" "w_pc (workers s ! w) = W_Delete0"
      "t = set_wpc w W_Close0
             (s\<lparr>activeDelayers := (activeDelayers s)(w_uid (workers s ! w) := None)\<rparr>)"
  | (Close0_closed) "w < length (workers s)" "w_pc (workers s ! w) = W_Close0"
      "w_ch (workers s ! w) < length (chans s)"
      "closed (chans s ! w_ch (workers s ! w))"
      "t = set_wpc w W_Unlock0 (s\<lparr>panicked := Some CloseOfClosed\<rparr>)"
  | (Close0) "w < length (workers s)" "w_pc (workers s ! w) = W_Close0"
      "w_ch (workers s ! w) < length (chans s)"
      "\<not> closed (chans s ! w_ch (workers s ! w))"
      "t = set_wpc w W_Unlock0
             (s\<lparr>chans := (chans s)[w_ch (workers s ! w) :=
                (chans s ! w_ch (workers s ! w))\<lparr>closed := True\<rparr>]\<rparr>)"
  | (Unlock0) "w < length (workers s)" "w_pc (workers s ! w) = W_Unlock0"
      "t = set_wpc w W_Done (Unlock s)"
  | (Call0) req where "w < length (workers s)" "w_pc (workers s ! w) = W_Call0 req"
      "length (checkCh s) < checkCh_cap"
      "t = set_wpc w W_NewTimer
             (s\<lparr>checkCh := checkCh s @ [id_req req],
                trace := trace s @ [(Worker w, EvCall req)]\<rparr>)"
  | (NewTimer) "w < length (workers s)" "w_pc (workers s ! w) = W_NewTimer"
      "t = set_wpc w W_Select (arm w s)"
  | (Select_recv) req rest where "w < length (workers s)" "w_pc (workers s ! w) = W_Select"
      "c = Recv" "w_ch (workers s ! w) < length (chans s)"
      "buf (chans s ! w_ch (workers s ! w)) = req # rest"
      "t = set_wpc w (W_Stop1 (Some req))
             (s\<lparr>chans := (chans s)[w_ch (workers s ! w) :=
                (chans s ! w_ch (workers s ! w))\<lparr>buf := rest\<rparr>]\<rparr>)"
  | (Select_closed) "w < length (workers s)" "w_pc (workers s ! w) = W_Select"
      "c = Recv" "w_ch (workers s ! w) < length (chans s)"
      "closed (chans s ! w_ch (workers s ! w))"
      "t = set_wpc w (W_Stop1 None) s"
  | (Select_timeout) "w < length (workers s)" "w_pc (workers s ! w) = W_Select"
      "c = Timeout" "w_timer (workers s ! w) = Armed"
      "t = set_wpc w W_Lock1 (set_timer w Expired s)"
  | (Stop1_closed) "w < length (workers s)" "w_pc (workers s ! w) = W_Stop1 None"
      "t = set_wpc w W_Done (set_timer w Stopped s)"
  | (Stop1) r where "w < length (workers s)" "w_pc (workers s ! w) = W_Stop1 (Some r)"
      "t = set_wpc w (W_Call1 r) (set_timer w Stopped s)"
  | (Call1) r where "w < length (workers s)" "w_pc (workers s ! w) = W_Call1 r"
      "length (checkCh s) < checkCh_cap"
      "t = set_wpc w (W_IfDelay r)
             (s\<lparr>checkCh := checkCh s @ [id_req r],
                trace := trace s @ [(Worker w, EvCall r)]\<rparr>)"
  | (IfDelay) r where "w < length (workers s)" "w_pc (workers s ! w) = W_IfDelay r"
      "t = set_wpc w (if NeedsDelay r then W_Sleep else W_Reset1) s"
  | (Sleep) "w < length (workers s)" "w_pc (workers s ! w) = W_Sleep"
      "t = set_wpc w W_Reset1 (s\<lparr>trace := trace s @ [(Worker w, EvSleep)]\<rparr>)"
  | (Reset1) "w < length (workers s)" "w_pc (workers s ! w) = W_Reset1"
      "t = set_wpc w W_Select (arm w s)"
  | (Lock1) "w < length (workers s)" "w_pc (workers s ! w) = W_Lock1" "mu s = None"
      "t = set_wpc w W_Len (s\<lparr>mu := Some (Worker w)\<rparr>)"
  | (Len) "w < length (workers s)" "w_pc (workers s ! w) = W_Len"
      "w_ch (workers s ! w) < length (chans s)"
      "t = set_wpc w (if length (buf (chans s ! w_ch (workers s ! w))) > 0 then W_Reset2
                      else W_Delete1) s"
  | (Reset2) "w < length (workers s)" "w_pc (workers s ! w) = W_Reset2"
      "t = set_wpc w W_Unlock1 (arm w s)"
  | (Unlock1) "w < length (workers s)" "w_pc (workers s ! w) = W_Unlock1"
      "t = set_wpc w W_Select (Unlock s)"
  | (Delete1) "w < length (workers s)" "w_pc (workers s ! w) = W_Delete1"
      "t = set_wpc w W_Close1
             (s\<lparr>activeDelayers := (activeDelayers s)(w_uid (workers s ! w) := None)\<rparr>)"
  | (Close1_closed) "w < length (workers s)" "w_pc (workers s ! w) = W_Close1"
      "w_ch (workers s ! w) < length (chans s)"
      "closed (chans s ! w_ch (workers s ! w))"
      "t = set_wpc w W_Unlock2 (s\<lparr>panicked := Some CloseOfClosed\<rparr>)"
  | (Close1) "w < length (workers s)" "w_pc (workers s ! w) = W_Close1"
      "w_ch (workers s ! w) < length (chans s)"
      "\<not> closed (chans s ! w_ch (workers s ! w))"
      "t = set_wpc w W_Unlock2
             (s\<lparr>chans := (chans s)[w_ch (workers s ! w) :=
                (chans s ! w_ch (workers s ! w))\<lparr>closed := True\<rparr>]\<rparr>)"
  | (Unlock2) "w < length (workers s)" "w_pc (workers s ! w) = W_Unlock2"
      "t = set_wpc w W_Stop2 (Unlock s)"
  | (Stop2) "w < length (workers s)" "w_pc (workers s ! w) = W_Stop2"
      "t = set_wpc w W_Done (set_timer w Stopped s)"
proof -
  have lt: "w < length (workers s)"
    using assms by (auto simp: userDelayer_step_def split: if_splits)
  show ?thesis
  proof (cases "w_pc (workers s ! w)")
    case W_Recv0
    then show ?thesis using assms lt Recv0 Recv0_closed
      by (auto simp: userDelayer_step_def recv_def split: if_splits list.splits)
  next
    case W_Lock0
    then show ?thesis using assms lt Lock0
      by (auto simp: userDelayer_step_def Lock_def split: if_splits)
  next
    case W_Delete0
    then show ?thesis using assms lt Delete0 by (auto simp: userDelayer_step_def)
  next
    case W_Close0
    then show ?thesis using assms lt Close0_closed Close0
      by (auto simp: userDelayer_step_def close_chan_def split: if_splits)
  next
    case W_Unlock0
    then show ?thesis using assms lt Unlock0 by (auto simp: userDelayer_step_def)
  next
    case (W_Call0 req)
    then show ?thesis using assms lt Call0
      by (auto simp: userDelayer_step_def callService_def split: if_splits)
  next
    case W_NewTimer
    then show ?thesis using assms lt NewTimer by (auto simp: userDelayer_step_def)
  next
    case W_Select
    then show ?thesis using assms lt Select_recv Select_closed Select_timeout
      by (cases c) (auto simp: userDelayer_step_def recv_def split: if_splits list.splits)
  next
    case (W_Stop1 ro)
    then show ?thesis using assms lt Stop1_closed Stop1
      by (cases ro) (auto simp: userDelayer_step_def)
  next
    case (W_Call1 r)
    then show ?thesis using assms lt Call1
      by (auto simp: userDelayer_step_def callService_def split: if_splits)
  next
    case (W_IfDelay r)
    then show ?thesis using assms lt IfDelay by (auto simp: userDelayer_step_def)
  next
    case W_Sleep
    then show ?thesis using assms lt Sleep by (auto simp: userDelayer_step_def)
  next
    case W_Reset1
    then show ?thesis using assms lt Reset1 by (auto simp: userDelayer_step_def)
  next
    case W_Lock1
    then show ?thesis using assms lt Lock1
      by (auto simp: userDelayer_step_def Lock_def split: if_splits)
  next
    case W_Len
    then show ?thesis using assms lt Len
      by (auto simp: userDelayer_step_def split: if_splits)
  next
    case W_Reset2
    then show ?thesis using assms lt Reset2 by (auto simp: userDelayer_step_def)
  next
    case W_Unlock1
    then show ?thesis using assms lt Unlock1 by (auto simp: userDelayer_step_def)
  next
    case W_Delete1
    then show ?thesis using assms lt Delete1 by (auto simp: userDelayer_step_def)
  next
    case W_Close1
    then show ?thesis using assms lt Close1_closed Close1
      by (auto simp: userDelayer_step_def close_chan_def split: if_splits)
  next
    case W_Unlock2
    then show ?thesis using assms lt Unlock2 by (auto simp: userDelayer_step_def)
  next
    case W_Stop2
    then show ?thesis using assms lt Stop2 by (auto simp: userDelayer_step_def)
  next
    case W_Done
    then show ?thesis using assms lt by (auto simp: userDelayer_step_def)
  qed
qed

lemma monitor_stepE:
  assumes "monitor_step s = Some t"
  obtains
    (Abort) i rest where "checkCh s = i # rest" "nextId s \<noteq> i"
      "t = s\<lparr>checkCh := rest, received := received s @ [i], panicked := Some MonitorAbort\<rparr>"
  | (Accept) i rest where "checkCh s = i # rest" "nextId s = i"
      "t = s\<lparr>checkCh := rest, received := received s @ [i], nextId := i + 1\<rparr>"
  using assms by (auto simp: monitor_step_def split: list.splits if_splits)

section \<open>The invariant of the routing table, the mutex and the queues\<close>

lemmas upd_defs = set_wpc_def set_timer_def arm_def Unlock_def
lemmas inv_defs = inv_lock_def inv_shape_def inv_pcs_def inv_table_def inv_disp_def inv_chan_def inv_panic_def

lemma wclosed_servicing [simp]: "wclosed pc \<Longrightarrow> \<not> servicing pc" by (cases pc) auto
lemma servicing_wclosed [simp]: "servicing pc \<Longrightarrow> \<not> wclosed pc" by (cases pc) auto
lemma wclosed_wdrained [simp]: "wclosed pc \<Longrightarrow> wdrained pc" by (cases pc) auto
lemma wdrained_wheld [simp]: "wdrained pc \<Longrightarrow> wheld pc = []" by (cases pc) auto


lemma core_worker:
  assumes "inv_core s" "w < length (workers s)"
  shows "w_ch (workers s ! w) = w"
    and "w < length (chans s)"
    and "\<not> on_closed_path (w_pc (workers s ! w))"
    and "wlocked (w_pc (workers s ! w)) \<longleftrightarrow> mu s = Some (Worker w)"
    and "servicing (w_pc (workers s ! w)) \<Longrightarrow> activeDelayers s (w_uid (workers s ! w)) = Some w"
    and "closed (chans s ! w) \<longleftrightarrow> wclosed (w_pc (workers s ! w))"
    and "wdrained (w_pc (workers s ! w)) \<Longrightarrow> buf (chans s ! w) = []"
    and "\<And>r. r \<in> set (wheld (w_pc (workers s ! w))) \<or> r \<in> set (buf (chans s ! w))
           \<Longrightarrow> UID r = w_uid (workers s ! w)"
  using assms
  by (auto simp: inv_core_def inv_lock_def inv_shape_def inv_pcs_def inv_table_def inv_chan_def
           split: option.splits)

text \<open>What the invariant says about the worker behind a table entry.\<close>
lemma core_entry:
  assumes "inv_core s" "activeDelayers s k = Some c" "dinstalled (d_pc s) = None"
  shows "c < length (workers s)" and "w_uid (workers s ! c) = k"
    and "servicing (w_pc (workers s ! c))" and "c < length (chans s)" and "\<not> closed (chans s ! c)"
proof -
  have T: "c < length (workers s) \<and> w_uid (workers s ! c) = k \<and> servicing (w_pc (workers s ! c))"
    using assms by (auto simp: inv_core_def inv_table_def)
  then show "c < length (workers s)" "w_uid (workers s ! c) = k" "servicing (w_pc (workers s ! c))"
    by auto
  show "c < length (chans s)"
    using T assms(1) by (auto simp: inv_core_def inv_shape_def split: option.splits)
  then show "\<not> closed (chans s ! c)"
    using T assms(1) by (auto simp: inv_core_def inv_chan_def)
qed

lemma core_new:
  assumes "inv_core s" "dnew (d_pc s) = Some c"
  shows "c = length (workers s)" and "length (chans s) = Suc (length (workers s))"
    and "\<not> closed (chans s ! c)"
  using assms
  by (auto simp: inv_core_def inv_shape_def inv_chan_def split: option.splits)

lemma core_old:
  assumes "inv_core s" "dnew (d_pc s) = None"
  shows "length (chans s) = length (workers s)"
  using assms
  by (auto simp: inv_core_def inv_shape_def split: option.splits)


lemma coreD: assumes "inv_core s"
  shows "inv_lock s" "inv_shape s" "inv_pcs s" "inv_table s" "inv_disp s" "inv_chan s" "inv_panic s"
  using assms by (auto simp: inv_core_def)

lemma core_mu_disp: "inv_core s \<Longrightarrow> dlocked (d_pc s) \<longleftrightarrow> mu s = Some Dispatcher"
  by (simp add: inv_core_def inv_lock_def)

lemma core_dfacts: "inv_core s \<Longrightarrow> dfacts (d_pc s) s"
  by (simp add: inv_core_def inv_disp_def)

text \<open>The dispatcher's steps in a state that satisfies the invariant.\<close>

lemma processor_step_cases:
  assumes "inv_core s" "processor_step s = Some t"
  obtains
    (Range_end) "d_pc s = D_Range" "input s = []" "t = s\<lparr>d_pc := D_Exit\<rparr>"
  | (Range_read) req rest where "d_pc s = D_Range" "input s = req # rest"
      "t = s\<lparr>input := rest, consumed := consumed s @ [req], d_pc := D_Lock req\<rparr>"
  | (Lock) req where "d_pc s = D_Lock req" "mu s = None"
      "t = s\<lparr>mu := Some Dispatcher, d_pc := D_Lookup req\<rparr>"
  | (Lookup_hit) req ch where "d_pc s = D_Lookup req" "mu s = Some Dispatcher"
      "activeDelayers s (UID req) = Some ch"
      "ch < length (workers s)" "w_uid (workers s ! ch) = UID req"
      "servicing (w_pc (workers s ! ch))" "length (chans s) = length (workers s)"
      "t = s\<lparr>d_pc := D_Send1 req ch\<rparr>"
  | (Lookup_delay) req where "d_pc s = D_Lookup req" "mu s = Some Dispatcher"
      "activeDelayers s (UID req) = None" "length (chans s) = length (workers s)"
      "NeedsDelay req" "t = s\<lparr>d_pc := D_Make req\<rparr>"
  | (Lookup_direct) req where "d_pc s = D_Lookup req" "mu s = Some Dispatcher"
      "activeDelayers s (UID req) = None"
      "\<not> NeedsDelay req" "t = s\<lparr>d_pc := D_Unlock3 req\<rparr>"
  | (Send1) req ch where "d_pc s = D_Send1 req ch" "mu s = Some Dispatcher"
      "activeDelayers s (UID req) = Some ch"
      "ch < length (workers s)" "w_uid (workers s ! ch) = UID req"
      "servicing (w_pc (workers s ! ch))" "length (chans s) = length (workers s)"
      "\<not> closed (chans s ! ch)" "length (buf (chans s ! ch)) < chan_cap"
      "t = s\<lparr>chans := (chans s)[ch := (chans s ! ch)\<lparr>buf := buf (chans s ! ch) @ [req]\<rparr>],
              d_pc := D_Unlock1\<rparr>"
  | (Unlock1) "d_pc s = D_Unlock1" "mu s = Some Dispatcher"
      "t = s\<lparr>mu := None, d_pc := D_Range\<rparr>"
  | (Make) req where "d_pc s = D_Make req" "mu s = Some Dispatcher"
      "activeDelayers s (UID req) = None" "length (chans s) = length (workers s)"
      "t = s\<lparr>chans := chans s @ [\<lparr>buf = [], closed = False\<rparr>],
              d_pc := D_Install req (length (workers s))\<rparr>"
  | (Install) req ch where "d_pc s = D_Install req ch" "mu s = Some Dispatcher"
      "activeDelayers s (UID req) = None" "ch = length (workers s)"
      "length (chans s) = Suc (length (workers s))"
      "buf (chans s ! ch) = []" "\<not> closed (chans s ! ch)"
      "t = s\<lparr>activeDelayers := (activeDelayers s)(UID req \<mapsto> ch), d_pc := D_Send2 req ch\<rparr>"
  | (Send2) req ch where "d_pc s = D_Send2 req ch" "mu s = Some Dispatcher"
      "activeDelayers s (UID req) = Some ch" "ch = length (workers s)"
      "length (chans s) = Suc (length (workers s))"
      "buf (chans s ! ch) = []" "\<not> closed (chans s ! ch)"
      "t = s\<lparr>chans := (chans s)[ch := (chans s ! ch)\<lparr>buf := [req]\<rparr>],
              d_pc := D_Unlock2 req ch\<rparr>"
  | (Unlock2) req ch where "d_pc s = D_Unlock2 req ch" "mu s = Some Dispatcher"
      "activeDelayers s (UID req) = Some ch" "ch = length (workers s)"
      "length (chans s) = Suc (length (workers s))"
      "buf (chans s ! ch) = [req]" "\<not> closed (chans s ! ch)"
      "t = s\<lparr>mu := None, d_pc := D_Go req ch\<rparr>"
  | (Go) req ch where "d_pc s = D_Go req ch" "mu s \<noteq> Some Dispatcher"
      "activeDelayers s (UID req) = Some ch" "ch = length (workers s)"
      "length (chans s) = Suc (length (workers s))"
      "buf (chans s ! ch) = [req]" "\<not> closed (chans s ! ch)"
      "t = s\<lparr>workers := workers s @
                [\<lparr>w_uid = UID req, w_ch = ch, w_pc = W_Recv0, w_timer = Unset\<rparr>],
              d_pc := D_Range\<rparr>"
  | (Unlock3) req where "d_pc s = D_Unlock3 req" "mu s = Some Dispatcher"
      "activeDelayers s (UID req) = None" "t = s\<lparr>mu := None, d_pc := D_Call req\<rparr>"
  | (Call) req where "d_pc s = D_Call req" "mu s \<noteq> Some Dispatcher"
      "activeDelayers s (UID req) = None" "length (checkCh s) < checkCh_cap"
      "t = s\<lparr>checkCh := checkCh s @ [id_req req],
              trace := trace s @ [(Dispatcher, EvCall req)], d_pc := D_Range\<rparr>"
  using assms(2)
proof (cases rule: processor_stepE)
  case Range_end
  show ?thesis
    by (rule that(1)) (use Range_end  in \<open>simp_all\<close>)
next
  case (Range_read req rest)
  show ?thesis
    by (rule that(2)[of req rest]) (use Range_read  in \<open>simp_all\<close>)
next
  case (Lock req)
  show ?thesis
    by (rule that(3)[of req]) (use Lock  in \<open>simp_all\<close>)
next
  case (Lookup_hit req ch)
  show ?thesis
    by (rule that(4)[of req ch]) (use Lookup_hit core_mu_disp[OF assms(1)] core_dfacts[OF assms(1)] core_entry[OF assms(1) Lookup_hit(2)] core_old[OF assms(1)] in \<open>simp_all\<close>)
next
  case (Lookup_delay req)
  show ?thesis
    by (rule that(5)[of req]) (use Lookup_delay core_mu_disp[OF assms(1)] core_dfacts[OF assms(1)] core_old[OF assms(1)] in \<open>simp_all\<close>)
next
  case (Lookup_direct req)
  show ?thesis
    by (rule that(6)[of req]) (use Lookup_direct core_mu_disp[OF assms(1)] core_dfacts[OF assms(1)] in \<open>simp_all\<close>)
next
  case (Send1_closed req ch)
  have "activeDelayers s (UID req) = Some ch"
    using core_dfacts[OF assms(1)] Send1_closed by simp
  from core_entry(5)[OF assms(1) this] Send1_closed show ?thesis by simp
next
  case (Send1 req ch)
  have e: "activeDelayers s (UID req) = Some ch"
    using core_dfacts[OF assms(1)] Send1 by simp
  show ?thesis
    by (rule that(7)[of req ch])
       (use Send1 e core_mu_disp[OF assms(1)] core_entry[OF assms(1) e] core_old[OF assms(1)]
         in simp_all)
next
  case Unlock1
  show ?thesis
    by (rule that(8)) (use Unlock1 core_mu_disp[OF assms(1)] core_dfacts[OF assms(1)] in \<open>simp_all add: Unlock_def\<close>)
next
  case (Make req)
  show ?thesis
    by (rule that(9)[of req]) (use Make core_mu_disp[OF assms(1)] core_dfacts[OF assms(1)] core_old[OF assms(1)] in \<open>simp_all\<close>)
next
  case (Install req ch)
  show ?thesis
    by (rule that(10)[of req ch]) (use Install core_mu_disp[OF assms(1)] core_dfacts[OF assms(1)] core_new[OF assms(1), of ch] in \<open>simp_all\<close>)
next
  case (Send2_closed req ch)
  then show ?thesis using core_new(3)[OF assms(1), of ch] by simp
next
  case (Send2 req ch)
  show ?thesis
    by (rule that(11)[of req ch]) (use Send2 core_mu_disp[OF assms(1)] core_dfacts[OF assms(1)] core_new[OF assms(1), of ch] in \<open>simp_all\<close>)
next
  case (Unlock2 req ch)
  show ?thesis
    by (rule that(12)[of req ch]) (use Unlock2 core_mu_disp[OF assms(1)] core_dfacts[OF assms(1)] core_new[OF assms(1), of ch] in \<open>simp_all add: Unlock_def\<close>)
next
  case (Go req ch)
  show ?thesis
    by (rule that(13)[of req ch]) (use Go core_mu_disp[OF assms(1)] core_dfacts[OF assms(1)] core_new[OF assms(1), of ch] in \<open>simp_all\<close>)
next
  case (Unlock3 req)
  show ?thesis
    by (rule that(14)[of req]) (use Unlock3 core_mu_disp[OF assms(1)] core_dfacts[OF assms(1)] in \<open>simp_all add: Unlock_def\<close>)
next
  case (Call req)
  show ?thesis
    by (rule that(15)[of req]) (use Call core_mu_disp[OF assms(1)] core_dfacts[OF assms(1)] in \<open>simp_all\<close>)
qed


lemma core_no_entry:
  assumes "inv_core s" "w < length (workers s)" "\<not> servicing (w_pc (workers s ! w))"
  shows "activeDelayers s k \<noteq> Some w"
proof
  assume e: "activeDelayers s k = Some w"
  have "dinstalled (d_pc s) = Some (k, w)"
    using assms e by (auto simp: inv_core_def inv_table_def)
  then have "dnew (d_pc s) = Some w"
    by (cases "d_pc s") auto
  then have "w = length (workers s)"
    using assms(1) by (auto simp: inv_core_def inv_shape_def)
  then show False using assms(2) by simp
qed

text \<open>A worker's steps in a state that satisfies the invariant.\<close>

lemma userDelayer_step_cases:
  assumes "inv_core s" "userDelayer_step w c s = Some t"
  obtains
    (Recv0) req rest where "w < length (workers s)"
      "w_pc (workers s ! w) = W_Recv0"
      "w_ch (workers s ! w) = w"
      "w < length (chans s)"
      "buf (chans s ! w) = req # rest"
      "UID req = w_uid (workers s ! w)"
      "activeDelayers s (w_uid (workers s ! w)) = Some w"
      "\<not> closed (chans s ! w)"
      "mu s \<noteq> Some (Worker w)"
      "t = set_wpc w (W_Call0 req)
             (s\<lparr>chans := (chans s)[w := (chans s ! w)\<lparr>buf := rest\<rparr>]\<rparr>)"
  | (Call0) req where "w < length (workers s)"
      "w_pc (workers s ! w) = W_Call0 req"
      "w_ch (workers s ! w) = w"
      "w < length (chans s)"
      "UID req = w_uid (workers s ! w)"
      "activeDelayers s (w_uid (workers s ! w)) = Some w"
      "\<not> closed (chans s ! w)"
      "mu s \<noteq> Some (Worker w)"
      "length (checkCh s) < checkCh_cap"
      "t = set_wpc w (W_NewTimer)
             (s\<lparr>checkCh := checkCh s @ [id_req req],
                trace := trace s @ [(Worker w, EvCall req)]\<rparr>)"
  | (NewTimer) "w < length (workers s)"
      "w_pc (workers s ! w) = W_NewTimer"
      "w_ch (workers s ! w) = w"
      "w < length (chans s)"
      "activeDelayers s (w_uid (workers s ! w)) = Some w"
      "\<not> closed (chans s ! w)"
      "mu s \<noteq> Some (Worker w)"
      "t = set_wpc w W_Select (arm w s)"
  | (Select_recv) req rest where "w < length (workers s)"
      "w_pc (workers s ! w) = W_Select"
      "w_ch (workers s ! w) = w"
      "w < length (chans s)"
      "c = Recv"
      "buf (chans s ! w) = req # rest"
      "UID req = w_uid (workers s ! w)"
      "activeDelayers s (w_uid (workers s ! w)) = Some w"
      "\<not> closed (chans s ! w)"
      "mu s \<noteq> Some (Worker w)"
      "t = set_wpc w (W_Stop1 (Some req))
             (s\<lparr>chans := (chans s)[w := (chans s ! w)\<lparr>buf := rest\<rparr>]\<rparr>)"
  | (Select_timeout) "w < length (workers s)"
      "w_pc (workers s ! w) = W_Select"
      "w_ch (workers s ! w) = w"
      "w < length (chans s)"
      "c = Timeout"
      "w_timer (workers s ! w) = Armed"
      "activeDelayers s (w_uid (workers s ! w)) = Some w"
      "\<not> closed (chans s ! w)"
      "mu s \<noteq> Some (Worker w)"
      "t = set_wpc w W_Lock1 (set_timer w Expired s)"
  | (Stop1) r where "w < length (workers s)"
      "w_pc (workers s ! w) = W_Stop1 (Some r)"
      "w_ch (workers s ! w) = w"
      "w < length (chans s)"
      "UID r = w_uid (workers s ! w)"
      "activeDelayers s (w_uid (workers s ! w)) = Some w"
      "\<not> closed (chans s ! w)"
      "mu s \<noteq> Some (Worker w)"
      "t = set_wpc w (W_Call1 r) (set_timer w Stopped s)"
  | (Call1) r where "w < length (workers s)"
      "w_pc (workers s ! w) = W_Call1 r"
      "w_ch (workers s ! w) = w"
      "w < length (chans s)"
      "UID r = w_uid (workers s ! w)"
      "activeDelayers s (w_uid (workers s ! w)) = Some w"
      "\<not> closed (chans s ! w)"
      "mu s \<noteq> Some (Worker w)"
      "length (checkCh s) < checkCh_cap"
      "t = set_wpc w (W_IfDelay r)
             (s\<lparr>checkCh := checkCh s @ [id_req r],
                trace := trace s @ [(Worker w, EvCall r)]\<rparr>)"
  | (IfDelay) r where "w < length (workers s)"
      "w_pc (workers s ! w) = W_IfDelay r"
      "w_ch (workers s ! w) = w"
      "w < length (chans s)"
      "activeDelayers s (w_uid (workers s ! w)) = Some w"
      "\<not> closed (chans s ! w)"
      "mu s \<noteq> Some (Worker w)"
      "t = set_wpc w (if NeedsDelay r then W_Sleep else W_Reset1) s"
  | (Sleep) "w < length (workers s)"
      "w_pc (workers s ! w) = W_Sleep"
      "w_ch (workers s ! w) = w"
      "w < length (chans s)"
      "activeDelayers s (w_uid (workers s ! w)) = Some w"
      "\<not> closed (chans s ! w)"
      "mu s \<noteq> Some (Worker w)"
      "t = set_wpc w W_Reset1 (s\<lparr>trace := trace s @ [(Worker w, EvSleep)]\<rparr>)"
  | (Reset1) "w < length (workers s)"
      "w_pc (workers s ! w) = W_Reset1"
      "w_ch (workers s ! w) = w"
      "w < length (chans s)"
      "activeDelayers s (w_uid (workers s ! w)) = Some w"
      "\<not> closed (chans s ! w)"
      "mu s \<noteq> Some (Worker w)"
      "t = set_wpc w W_Select (arm w s)"
  | (Lock1) "w < length (workers s)"
      "w_pc (workers s ! w) = W_Lock1"
      "w_ch (workers s ! w) = w"
      "w < length (chans s)"
      "mu s = None"
      "activeDelayers s (w_uid (workers s ! w)) = Some w"
      "\<not> closed (chans s ! w)"
      "t = set_wpc w W_Len (s\<lparr>mu := Some (Worker w)\<rparr>)"
  | (Len) "w < length (workers s)"
      "w_pc (workers s ! w) = W_Len"
      "w_ch (workers s ! w) = w"
      "w < length (chans s)"
      "mu s = Some (Worker w)"
      "activeDelayers s (w_uid (workers s ! w)) = Some w"
      "\<not> closed (chans s ! w)"
      "t = set_wpc w (if length (buf (chans s ! w)) > 0 then W_Reset2 else W_Delete1) s"
  | (Reset2) "w < length (workers s)"
      "w_pc (workers s ! w) = W_Reset2"
      "w_ch (workers s ! w) = w"
      "w < length (chans s)"
      "mu s = Some (Worker w)"
      "activeDelayers s (w_uid (workers s ! w)) = Some w"
      "\<not> closed (chans s ! w)"
      "t = set_wpc w W_Unlock1 (arm w s)"
  | (Unlock1) "w < length (workers s)"
      "w_pc (workers s ! w) = W_Unlock1"
      "w_ch (workers s ! w) = w"
      "w < length (chans s)"
      "mu s = Some (Worker w)"
      "activeDelayers s (w_uid (workers s ! w)) = Some w"
      "\<not> closed (chans s ! w)"
      "t = set_wpc w W_Select (s\<lparr>mu := None\<rparr>)"
  | (Delete1) "w < length (workers s)"
      "w_pc (workers s ! w) = W_Delete1"
      "w_ch (workers s ! w) = w"
      "w < length (chans s)"
      "mu s = Some (Worker w)"
      "activeDelayers s (w_uid (workers s ! w)) = Some w"
      "\<not> closed (chans s ! w)"
      "buf (chans s ! w) = []"
      "t = set_wpc w W_Close1
             (s\<lparr>activeDelayers := (activeDelayers s)(w_uid (workers s ! w) := None)\<rparr>)"
  | (Close1) "w < length (workers s)"
      "w_pc (workers s ! w) = W_Close1"
      "w_ch (workers s ! w) = w"
      "w < length (chans s)"
      "mu s = Some (Worker w)"
      "\<And>k. activeDelayers s k \<noteq> Some w"
      "\<not> closed (chans s ! w)"
      "buf (chans s ! w) = []"
      "t = set_wpc w W_Unlock2
             (s\<lparr>chans := (chans s)[w := (chans s ! w)\<lparr>closed := True\<rparr>]\<rparr>)"
  | (Unlock2) "w < length (workers s)"
      "w_pc (workers s ! w) = W_Unlock2"
      "w_ch (workers s ! w) = w"
      "w < length (chans s)"
      "mu s = Some (Worker w)"
      "\<And>k. activeDelayers s k \<noteq> Some w"
      "closed (chans s ! w)"
      "buf (chans s ! w) = []"
      "t = set_wpc w W_Stop2 (s\<lparr>mu := None\<rparr>)"
  | (Stop2) "w < length (workers s)"
      "w_pc (workers s ! w) = W_Stop2"
      "w_ch (workers s ! w) = w"
      "w < length (chans s)"
      "mu s \<noteq> Some (Worker w)"
      "\<And>k. activeDelayers s k \<noteq> Some w"
      "closed (chans s ! w)"
      "buf (chans s ! w) = []"
      "t = set_wpc w W_Done (set_timer w Stopped s)"
proof -
  have lt: "w < length (workers s)"
    using assms(2) by (auto simp: userDelayer_step_def split: if_splits)
  note L = core_worker[OF assms(1) lt]
  note N = core_no_entry[OF assms(1) lt]
  show ?thesis
    using assms(2)
  proof (cases rule: userDelayer_stepE)
    case (Recv0 req rest)
    show ?thesis
      by (rule that(1)[of req rest]) (use Recv0 L N in \<open>simp_all\<close>)
  next
    case Recv0_closed
    then show ?thesis using L by simp
  next
    case Lock0
    then show ?thesis using L by simp
  next
    case Delete0
    then show ?thesis using L by simp
  next
    case Close0_closed
    then show ?thesis using L by simp
  next
    case Close0
    then show ?thesis using L by simp
  next
    case Unlock0
    then show ?thesis using L by simp
  next
    case (Call0 req)
    show ?thesis
      by (rule that(2)[of req]) (use Call0 L N in \<open>simp_all\<close>)
  next
    case NewTimer
    show ?thesis
      by (rule that(3)) (use NewTimer L N in \<open>simp_all\<close>)
  next
    case (Select_recv req rest)
    show ?thesis
      by (rule that(4)[of req rest]) (use Select_recv L N in \<open>simp_all\<close>)
  next
    case Select_closed
    then show ?thesis using L by simp
  next
    case Select_timeout
    show ?thesis
      by (rule that(5)) (use Select_timeout L N in \<open>simp_all\<close>)
  next
    case Stop1_closed
    then show ?thesis using L by simp
  next
    case (Stop1 r)
    show ?thesis
      by (rule that(6)[of r]) (use Stop1 L N in \<open>simp_all\<close>)
  next
    case (Call1 r)
    show ?thesis
      by (rule that(7)[of r]) (use Call1 L N in \<open>simp_all\<close>)
  next
    case (IfDelay r)
    show ?thesis
      by (rule that(8)[of r]) (use IfDelay L N in \<open>simp_all\<close>)
  next
    case Sleep
    show ?thesis
      by (rule that(9)) (use Sleep L N in \<open>simp_all\<close>)
  next
    case Reset1
    show ?thesis
      by (rule that(10)) (use Reset1 L N in \<open>simp_all\<close>)
  next
    case Lock1
    show ?thesis
      by (rule that(11)) (use Lock1 L N in \<open>simp_all\<close>)
  next
    case Len
    show ?thesis
      by (rule that(12)) (use Len L N in \<open>simp_all\<close>)
  next
    case Reset2
    show ?thesis
      by (rule that(13)) (use Reset2 L N in \<open>simp_all\<close>)
  next
    case Unlock1
    show ?thesis
      by (rule that(14)) (use Unlock1 L N in \<open>simp_all add: Unlock_def\<close>)
  next
    case Delete1
    show ?thesis
      by (rule that(15)) (use Delete1 L N in \<open>simp_all\<close>)
  next
    case Close1_closed
    then show ?thesis using L by simp
  next
    case Close1
    show ?thesis
      by (rule that(16)) (use Close1 L N in \<open>simp_all\<close>)
  next
    case Unlock2
    show ?thesis
      by (rule that(17)) (use Unlock2 L N in \<open>simp_all add: Unlock_def\<close>)
  next
    case Stop2
    show ?thesis
      by (rule that(18)) (use Stop2 L N in \<open>simp_all\<close>)
  qed
qed


subsection \<open>Preservation of the invariants\<close>

lemma lock_d:
  assumes "inv_core s" "processor_step s = Some t" shows "inv_lock t"
  using assms coreD(1)[OF assms(1)]
  by (cases rule: processor_step_cases) (auto simp: inv_lock_def nth_append)

lemma lock_w:
  assumes "inv_core s" "userDelayer_step w c s = Some t" shows "inv_lock t"
  using assms coreD(1)[OF assms(1)]
  by (cases rule: userDelayer_step_cases)
     (auto simp: inv_lock_def upd_defs nth_list_update)

lemma shape_d:
  assumes "inv_core s" "processor_step s = Some t" shows "inv_shape t"
  using assms coreD(2)[OF assms(1)]
  by (cases rule: processor_step_cases) (auto simp: inv_shape_def nth_append)

lemma shape_w:
  assumes "inv_core s" "userDelayer_step w c s = Some t" shows "inv_shape t"
  using assms coreD(2)[OF assms(1)]
  by (cases rule: userDelayer_step_cases)
     (auto simp: inv_shape_def upd_defs nth_list_update)

lemma pcs_d:
  assumes "inv_core s" "processor_step s = Some t" shows "inv_pcs t"
  using assms coreD(3)[OF assms(1)]
  by (cases rule: processor_step_cases) (auto simp: inv_pcs_def nth_append)

lemma pcs_w:
  assumes "inv_core s" "userDelayer_step w c s = Some t" shows "inv_pcs t"
  using assms coreD(3)[OF assms(1)]
  by (cases rule: userDelayer_step_cases)
     (auto simp: inv_pcs_def upd_defs nth_list_update)

lemma panic_d:
  assumes "inv_core s" "processor_step s = Some t" shows "inv_panic t"
  using assms coreD(7)[OF assms(1)]
  by (cases rule: processor_step_cases) (auto simp: inv_panic_def)

lemma panic_w:
  assumes "inv_core s" "userDelayer_step w c s = Some t" shows "inv_panic t"
  using assms coreD(7)[OF assms(1)]
  by (cases rule: userDelayer_step_cases) (auto simp: inv_panic_def upd_defs)

text \<open>The routing table.\<close>

lemma inv_table_wframe:
  assumes "inv_table s" "length (workers t) = length (workers s)"
    "\<And>v. v \<noteq> w \<Longrightarrow> workers t ! v = workers s ! v"
    "w_uid (workers t ! w) = w_uid (workers s ! w)"
    "servicing (w_pc (workers t ! w)) = servicing (w_pc (workers s ! w))"
    "activeDelayers t = activeDelayers s" "d_pc t = d_pc s"
  shows "inv_table t"
  unfolding inv_table_def
proof (intro conjI allI impI)
  fix v assume "v < length (workers t)" "servicing (w_pc (workers t ! v))"
  then show "activeDelayers t (w_uid (workers t ! v)) = Some v"
    using assms by (cases "v = w") (auto simp: inv_table_def)
next
  fix k c assume "activeDelayers t k = Some c"
  then have "(c < length (workers s) \<and> w_uid (workers s ! c) = k \<and> servicing (w_pc (workers s ! c)))
      \<or> dinstalled (d_pc s) = Some (k, c)"
    using assms(1,6) by (auto simp: inv_table_def)
  then show "(c < length (workers t) \<and> w_uid (workers t ! c) = k \<and> servicing (w_pc (workers t ! c)))
      \<or> dinstalled (d_pc t) = Some (k, c)"
    using assms(2-5,7) by (cases "c = w") auto
qed

lemma inv_table_dframe:
  assumes "inv_table s" "workers t = workers s" "activeDelayers t = activeDelayers s"
    "dinstalled (d_pc t) = dinstalled (d_pc s)"
  shows "inv_table t"
  using assms by (simp add: inv_table_def)

lemma table_install:
  assumes "inv_table s" "d_pc s = D_Install req ch" "activeDelayers s (UID req) = None"
  shows "inv_table (s\<lparr>activeDelayers := (activeDelayers s)(UID req \<mapsto> ch), d_pc := D_Send2 req ch\<rparr>)"
  unfolding inv_table_def
proof (intro conjI allI impI)
  fix v
  assume "v < length (workers (s\<lparr>activeDelayers := (activeDelayers s)(UID req \<mapsto> ch), d_pc := D_Send2 req ch\<rparr>))"
    "servicing (w_pc (workers (s\<lparr>activeDelayers := (activeDelayers s)(UID req \<mapsto> ch), d_pc := D_Send2 req ch\<rparr>) ! v))"
  then have e: "activeDelayers s (w_uid (workers s ! v)) = Some v"
    using assms(1) by (simp add: inv_table_def)
  then have "w_uid (workers s ! v) \<noteq> UID req"
    using assms(3) by auto
  then show "activeDelayers (s\<lparr>activeDelayers := (activeDelayers s)(UID req \<mapsto> ch), d_pc := D_Send2 req ch\<rparr>)
      (w_uid (workers (s\<lparr>activeDelayers := (activeDelayers s)(UID req \<mapsto> ch), d_pc := D_Send2 req ch\<rparr>) ! v)) = Some v"
    using e by simp
next
  fix k c
  assume a: "activeDelayers (s\<lparr>activeDelayers := (activeDelayers s)(UID req \<mapsto> ch), d_pc := D_Send2 req ch\<rparr>) k = Some c"
  show "(c < length (workers (s\<lparr>activeDelayers := (activeDelayers s)(UID req \<mapsto> ch), d_pc := D_Send2 req ch\<rparr>))
       \<and> w_uid (workers (s\<lparr>activeDelayers := (activeDelayers s)(UID req \<mapsto> ch), d_pc := D_Send2 req ch\<rparr>) ! c) = k
       \<and> servicing (w_pc (workers (s\<lparr>activeDelayers := (activeDelayers s)(UID req \<mapsto> ch), d_pc := D_Send2 req ch\<rparr>) ! c)))
     \<or> dinstalled (d_pc (s\<lparr>activeDelayers := (activeDelayers s)(UID req \<mapsto> ch), d_pc := D_Send2 req ch\<rparr>)) = Some (k, c)"
  proof (cases "k = UID req")
    case True
    then show ?thesis using a by simp
  next
    case False
    then have "activeDelayers s k = Some c" using a by simp
    then have "c < length (workers s) \<and> w_uid (workers s ! c) = k \<and> servicing (w_pc (workers s ! c))"
      using assms(1,2) by (auto simp: inv_table_def)
    then show ?thesis by simp
  qed
qed

lemma table_go:
  assumes "inv_table s" "d_pc s = D_Go req ch" "activeDelayers s (UID req) = Some ch"
    "ch = length (workers s)"
  shows "inv_table (s\<lparr>workers := workers s @
                [\<lparr>w_uid = UID req, w_ch = ch, w_pc = W_Recv0, w_timer = Unset\<rparr>],
              d_pc := D_Range\<rparr>)"
  unfolding inv_table_def
proof (intro conjI allI impI)
  fix v
  assume "v < length (workers (s\<lparr>workers := workers s @
                [\<lparr>w_uid = UID req, w_ch = ch, w_pc = W_Recv0, w_timer = Unset\<rparr>], d_pc := D_Range\<rparr>))"
    "servicing (w_pc (workers (s\<lparr>workers := workers s @
                [\<lparr>w_uid = UID req, w_ch = ch, w_pc = W_Recv0, w_timer = Unset\<rparr>], d_pc := D_Range\<rparr>) ! v))"
  then show "activeDelayers (s\<lparr>workers := workers s @
                [\<lparr>w_uid = UID req, w_ch = ch, w_pc = W_Recv0, w_timer = Unset\<rparr>], d_pc := D_Range\<rparr>)
      (w_uid (workers (s\<lparr>workers := workers s @
                [\<lparr>w_uid = UID req, w_ch = ch, w_pc = W_Recv0, w_timer = Unset\<rparr>], d_pc := D_Range\<rparr>) ! v)) = Some v"
    using assms(1,3,4) by (cases "v < length (workers s)") (auto simp: inv_table_def nth_append)
next
  fix k c
  assume "activeDelayers (s\<lparr>workers := workers s @
                [\<lparr>w_uid = UID req, w_ch = ch, w_pc = W_Recv0, w_timer = Unset\<rparr>], d_pc := D_Range\<rparr>) k = Some c"
  then have e: "activeDelayers s k = Some c" by simp
  have "(c < length (workers s) \<and> w_uid (workers s ! c) = k \<and> servicing (w_pc (workers s ! c)))
      \<or> (k = UID req \<and> c = ch)"
    using assms(1,2) e by (auto simp: inv_table_def)
  then show "(c < length (workers (s\<lparr>workers := workers s @
                [\<lparr>w_uid = UID req, w_ch = ch, w_pc = W_Recv0, w_timer = Unset\<rparr>], d_pc := D_Range\<rparr>))
       \<and> w_uid (workers (s\<lparr>workers := workers s @
                [\<lparr>w_uid = UID req, w_ch = ch, w_pc = W_Recv0, w_timer = Unset\<rparr>], d_pc := D_Range\<rparr>) ! c) = k
       \<and> servicing (w_pc (workers (s\<lparr>workers := workers s @
                [\<lparr>w_uid = UID req, w_ch = ch, w_pc = W_Recv0, w_timer = Unset\<rparr>], d_pc := D_Range\<rparr>) ! c)))
     \<or> dinstalled (d_pc (s\<lparr>workers := workers s @
                [\<lparr>w_uid = UID req, w_ch = ch, w_pc = W_Recv0, w_timer = Unset\<rparr>], d_pc := D_Range\<rparr>)) = Some (k, c)"
    using assms(4) by (auto simp: nth_append)
qed

lemma table_d:
  assumes "inv_core s" "processor_step s = Some t" shows "inv_table t"
  using assms
proof (cases rule: processor_step_cases)
  case (Install req ch)
  then show ?thesis using table_install[OF coreD(4)[OF assms(1)]] by simp
next
  case (Go req ch)
  then show ?thesis using table_go[OF coreD(4)[OF assms(1)]] by simp
qed (rule inv_table_dframe[OF coreD(4)[OF assms(1)]]; simp)+

lemma table_delete:
  assumes "inv_table s" "w < length (workers s)" "w_pc (workers s ! w) = W_Delete1"
  shows "inv_table (set_wpc w W_Close1
           (s\<lparr>activeDelayers := (activeDelayers s)(w_uid (workers s ! w) := None)\<rparr>))"
    (is "inv_table ?t")
  unfolding inv_table_def
proof (intro conjI allI impI)
  have mine: "activeDelayers s (w_uid (workers s ! w)) = Some w"
    using assms by (simp add: inv_table_def)
  fix v assume v: "v < length (workers ?t)" "servicing (w_pc (workers ?t ! v))"
  then have "v \<noteq> w" using assms(2) by (auto simp: set_wpc_def)
  moreover from this v have e: "activeDelayers s (w_uid (workers s ! v)) = Some v"
    using assms(1) by (simp add: inv_table_def set_wpc_def)
  moreover from \<open>v \<noteq> w\<close> e mine have "w_uid (workers s ! v) \<noteq> w_uid (workers s ! w)" by auto
  ultimately show "activeDelayers ?t (w_uid (workers ?t ! v)) = Some v"
    by (simp add: set_wpc_def)
next
  fix k c assume a: "activeDelayers ?t k = Some c"
  then have k: "k \<noteq> w_uid (workers s ! w)" and e: "activeDelayers s k = Some c"
    by (auto simp: set_wpc_def split: if_splits)
  from e assms(1) have "(c < length (workers s) \<and> w_uid (workers s ! c) = k \<and> servicing (w_pc (workers s ! c)))
      \<or> dinstalled (d_pc s) = Some (k, c)"
    by (auto simp: inv_table_def)
  then show "(c < length (workers ?t) \<and> w_uid (workers ?t ! c) = k \<and> servicing (w_pc (workers ?t ! c)))
      \<or> dinstalled (d_pc ?t) = Some (k, c)"
    using k by (cases "c = w") (auto simp: set_wpc_def)
qed

lemma table_w:
  assumes "inv_core s" "userDelayer_step w c s = Some t" shows "inv_table t"
  using assms
proof (cases rule: userDelayer_step_cases)
  case Delete1
  then show ?thesis using table_delete[OF coreD(4)[OF assms(1)]] by simp
qed (rule inv_table_wframe[OF coreD(4)[OF assms(1)], where w = w]; simp add: upd_defs)+


text \<open>The dispatcher's knowledge about its own entry.\<close>

lemma disp_d:
  assumes "inv_core s" "processor_step s = Some t" shows "inv_disp t"
  using assms
  by (cases rule: processor_step_cases) (auto simp: inv_disp_def nth_append)

lemma dfacts_frame:
  assumes "dfacts pc s" "activeDelayers t = activeDelayers s"
    "\<And>c. dnew pc = Some c \<Longrightarrow> buf (chans t ! c) = buf (chans s ! c)"
  shows "dfacts pc t"
  using assms by (cases pc) auto

lemma dfacts_delete:
  assumes "dfacts pc s" "\<not> dlocked pc" "\<And>c. dnew pc = Some c \<Longrightarrow> activeDelayers s k \<noteq> Some c"
  shows "dfacts pc (s\<lparr>activeDelayers := (activeDelayers s)(k := None)\<rparr>)"
  using assms by (cases pc) auto

lemma core_dnew_fresh:
  assumes "inv_core s" "w < length (workers s)" "dnew (d_pc s) = Some c"
  shows "c \<noteq> w"
  using assms by (auto simp: inv_core_def inv_shape_def)

text \<open>What a step of worker \<open>w\<close> leaves alone.\<close>

lemma userDelayer_step_frame:
  assumes "inv_core s" "userDelayer_step w c s = Some t"
  shows "d_pc t = d_pc s" and "input t = input s" and "consumed t = consumed s"
    and "length (workers t) = length (workers s)" and "length (chans t) = length (chans s)"
    and "\<And>v. v \<noteq> w \<Longrightarrow> workers t ! v = workers s ! v"
    and "\<And>c. c \<noteq> w \<Longrightarrow> chans t ! c = chans s ! c"
    and "w_uid (workers t ! w) = w_uid (workers s ! w)"
    and "w_ch (workers t ! w) = w_ch (workers s ! w)"
    and "\<And>k. k \<noteq> w_uid (workers s ! w) \<Longrightarrow> activeDelayers t k = activeDelayers s k"
    and "received t = received s" and "nextId t = nextId s"
  using assms
  by (cases rule: userDelayer_step_cases; simp add: upd_defs)+

lemma userDelayer_step_lt:
  assumes "userDelayer_step w c s = Some t" shows "w < length (workers s)"
  using assms by (auto simp: userDelayer_step_def split: if_splits)

lemma disp_w:
  assumes "inv_core s" "userDelayer_step w c s = Some t" shows "inv_disp t"
proof -
  note lt = userDelayer_step_lt[OF assms(2)]
  note F = userDelayer_step_frame[OF assms]
  have bufs: "\<And>c. dnew (d_pc s) = Some c \<Longrightarrow> buf (chans t ! c) = buf (chans s ! c)"
    using core_dnew_fresh[OF assms(1) lt] F(7) by simp
  have "dfacts (d_pc s) t"
    using assms
  proof (cases rule: userDelayer_step_cases)
    case Delete1
    have "\<not> dlocked (d_pc s)"
      using core_mu_disp[OF assms(1)] Delete1 by simp
    moreover have "\<And>c. dnew (d_pc s) = Some c \<Longrightarrow> activeDelayers s (w_uid (workers s ! w)) \<noteq> Some c"
      using core_dnew_fresh[OF assms(1) lt] Delete1 by auto
    ultimately have
      "dfacts (d_pc s) (s\<lparr>activeDelayers := (activeDelayers s)(w_uid (workers s ! w) := None)\<rparr>)"
      using dfacts_delete[OF core_dfacts[OF assms(1)]] by blast
    then show ?thesis
      by (rule dfacts_frame) (use Delete1 in \<open>simp_all add: upd_defs\<close>)
  qed (rule dfacts_frame[OF core_dfacts[OF assms(1)] _ bufs]; simp add: upd_defs)+
  then show ?thesis by (simp add: inv_disp_def F(1))
qed

text \<open>The queues.\<close>

lemma servicing_unlocked_not_drained: "servicing pc \<Longrightarrow> \<not> wlocked pc \<Longrightarrow> \<not> wdrained pc"
  by (cases pc) auto

lemma inv_chan_upd:
  assumes "inv_chan s"
    "length (workers t) = length (workers s)" "length (chans t) = length (chans s)"
    "\<And>v. v \<noteq> w \<Longrightarrow> workers t ! v = workers s ! v"
    "\<And>c. c \<noteq> w \<Longrightarrow> chans t ! c = chans s ! c"
    "w < length (workers s) \<Longrightarrow> w < length (chans s) \<Longrightarrow>
       closed (chans t ! w) \<longleftrightarrow> wclosed (w_pc (workers t ! w))"
    "w < length (workers s) \<Longrightarrow> wdrained (w_pc (workers t ! w)) \<Longrightarrow> buf (chans t ! w) = []"
    "\<And>r. w < length (workers s) \<Longrightarrow>
       r \<in> set (wheld (w_pc (workers t ! w))) \<or> r \<in> set (buf (chans t ! w)) \<Longrightarrow>
       UID r = w_uid (workers t ! w)"
    "\<not> w < length (workers s) \<Longrightarrow> w < length (chans s) \<Longrightarrow> \<not> closed (chans t ! w)"
  shows "inv_chan t"
  unfolding inv_chan_def
proof (intro conjI allI impI ballI)
  fix c assume c: "c < length (chans t)"
  show "closed (chans t ! c) \<longleftrightarrow> c < length (workers t) \<and> wclosed (w_pc (workers t ! c))"
  proof (cases "c = w")
    case True
    then show ?thesis using c assms(2,3,6,9) by (cases "w < length (workers s)") auto
  next
    case False
    then show ?thesis using c assms(1-5) by (auto simp: inv_chan_def)
  qed
next
  fix c assume c: "c < length (workers t)" and d: "wdrained (w_pc (workers t ! c))"
  show "buf (chans t ! c) = []"
  proof (cases "c = w")
    case True
    then show ?thesis using c d assms(2,7) by auto
  next
    case False
    then show ?thesis using c d assms(1-5) by (auto simp: inv_chan_def)
  qed
next
  fix c r assume c: "c < length (workers t)"
    and r: "r \<in> set (wheld (w_pc (workers t ! c)) @ buf (chans t ! c))"
  show "UID r = w_uid (workers t ! c)"
  proof (cases "c = w")
    case True
    then show ?thesis using c r assms(2) assms(8)[of r] by auto
  next
    case False
    then show ?thesis using c r assms(1-5) by (auto simp: inv_chan_def)
  qed
qed

lemma chan_make:
  assumes "inv_chan s" "length (chans s) = length (workers s)"
  shows "inv_chan (s\<lparr>chans := chans s @ [\<lparr>buf = [], closed = False\<rparr>], d_pc := pc\<rparr>)"
  using assms by (auto simp: inv_chan_def nth_append)

lemma chan_go:
  assumes "inv_chan s" "length (chans s) = Suc (length (workers s))"
    "buf (chans s ! length (workers s)) = [req]" "\<not> closed (chans s ! length (workers s))"
  shows "inv_chan (s\<lparr>workers := workers s @
                [\<lparr>w_uid = UID req, w_ch = ch, w_pc = W_Recv0, w_timer = Unset\<rparr>], d_pc := pc\<rparr>)"
  unfolding inv_chan_def
proof (intro conjI allI impI ballI)
  fix c assume "c < length (chans (s\<lparr>workers := workers s @
                [\<lparr>w_uid = UID req, w_ch = ch, w_pc = W_Recv0, w_timer = Unset\<rparr>], d_pc := pc\<rparr>))"
  then show "closed (chans (s\<lparr>workers := workers s @
                [\<lparr>w_uid = UID req, w_ch = ch, w_pc = W_Recv0, w_timer = Unset\<rparr>], d_pc := pc\<rparr>) ! c)
      \<longleftrightarrow> c < length (workers (s\<lparr>workers := workers s @
                [\<lparr>w_uid = UID req, w_ch = ch, w_pc = W_Recv0, w_timer = Unset\<rparr>], d_pc := pc\<rparr>))
        \<and> wclosed (w_pc (workers (s\<lparr>workers := workers s @
                [\<lparr>w_uid = UID req, w_ch = ch, w_pc = W_Recv0, w_timer = Unset\<rparr>], d_pc := pc\<rparr>) ! c))"
    using assms by (cases "c < length (workers s)") (auto simp: inv_chan_def nth_append less_Suc_eq)
next
  fix c assume "c < length (workers (s\<lparr>workers := workers s @
                [\<lparr>w_uid = UID req, w_ch = ch, w_pc = W_Recv0, w_timer = Unset\<rparr>], d_pc := pc\<rparr>))"
    "wdrained (w_pc (workers (s\<lparr>workers := workers s @
                [\<lparr>w_uid = UID req, w_ch = ch, w_pc = W_Recv0, w_timer = Unset\<rparr>], d_pc := pc\<rparr>) ! c))"
  then show "buf (chans (s\<lparr>workers := workers s @
                [\<lparr>w_uid = UID req, w_ch = ch, w_pc = W_Recv0, w_timer = Unset\<rparr>], d_pc := pc\<rparr>) ! c) = []"
    using assms by (cases "c < length (workers s)") (auto simp: inv_chan_def nth_append less_Suc_eq)
next
  fix c r assume "c < length (workers (s\<lparr>workers := workers s @
                [\<lparr>w_uid = UID req, w_ch = ch, w_pc = W_Recv0, w_timer = Unset\<rparr>], d_pc := pc\<rparr>))"
    "r \<in> set (wheld (w_pc (workers (s\<lparr>workers := workers s @
                [\<lparr>w_uid = UID req, w_ch = ch, w_pc = W_Recv0, w_timer = Unset\<rparr>], d_pc := pc\<rparr>) ! c))
          @ buf (chans (s\<lparr>workers := workers s @
                [\<lparr>w_uid = UID req, w_ch = ch, w_pc = W_Recv0, w_timer = Unset\<rparr>], d_pc := pc\<rparr>) ! c))"
  then show "UID r = w_uid (workers (s\<lparr>workers := workers s @
                [\<lparr>w_uid = UID req, w_ch = ch, w_pc = W_Recv0, w_timer = Unset\<rparr>], d_pc := pc\<rparr>) ! c)"
    using assms by (cases "c < length (workers s)") (auto simp: inv_chan_def nth_append less_Suc_eq)
qed

lemma inv_chan_dframe:
  assumes "inv_chan s" "workers t = workers s" "chans t = chans s"
  shows "inv_chan t"
  using assms by (simp add: inv_chan_def)

lemma chan_d:
  assumes "inv_core s" "processor_step s = Some t" shows "inv_chan t"
  using assms
proof (cases rule: processor_step_cases)
  case (Send1 req ch)
  have nl: "\<not> wlocked (w_pc (workers s ! ch))"
    using core_worker(4)[OF assms(1) Send1(4)] Send1(2) by simp
  have nd: "\<not> wdrained (w_pc (workers s ! ch))"
    using servicing_unlocked_not_drained[OF Send1(6) nl] .
  note L = core_worker[OF assms(1) Send1(4)]
  show ?thesis
  proof (rule inv_chan_upd[OF coreD(6)[OF assms(1)], where w = ch])
    show "closed (chans t ! ch) \<longleftrightarrow> wclosed (w_pc (workers t ! ch))"
      using Send1 by simp
    show "wdrained (w_pc (workers t ! ch)) \<Longrightarrow> buf (chans t ! ch) = []"
      using Send1 nd by simp
    show "\<And>r. r \<in> set (wheld (w_pc (workers t ! ch))) \<or> r \<in> set (buf (chans t ! ch)) \<Longrightarrow>
       UID r = w_uid (workers t ! ch)"
      using Send1 L(8) by auto
  qed (use Send1 in simp_all)
next
  case (Make req)
  then show ?thesis using chan_make[OF coreD(6)[OF assms(1)]] by simp
next
  case (Send2 req ch)
  show ?thesis
    by (rule inv_chan_upd[OF coreD(6)[OF assms(1)], where w = ch]) (use Send2 in simp_all)
next
  case (Go req ch)
  then show ?thesis using chan_go[OF coreD(6)[OF assms(1)]] by simp
qed (rule inv_chan_dframe[OF coreD(6)[OF assms(1)]]; simp)+

lemma chan_w:
  assumes "inv_core s" "userDelayer_step w c s = Some t" shows "inv_chan t"
proof -
  note lt = userDelayer_step_lt[OF assms(2)]
  note L = core_worker[OF assms(1) lt]
  note F = userDelayer_step_frame[OF assms]
  show ?thesis
  proof (rule inv_chan_upd[OF coreD(6)[OF assms(1)], where w = w])
    show "length (workers t) = length (workers s)" by (rule F)
    show "length (chans t) = length (chans s)" by (rule F)
    show "\<And>v. v \<noteq> w \<Longrightarrow> workers t ! v = workers s ! v" by (rule F)
    show "\<And>c. c \<noteq> w \<Longrightarrow> chans t ! c = chans s ! c" by (rule F)
    show "closed (chans t ! w) \<longleftrightarrow> wclosed (w_pc (workers t ! w))"
      using assms by (cases rule: userDelayer_step_cases) (simp_all add: upd_defs)
    show "wdrained (w_pc (workers t ! w)) \<Longrightarrow> buf (chans t ! w) = []"
      using assms by (cases rule: userDelayer_step_cases) (simp_all add: upd_defs split: if_splits)
    show "\<And>r. r \<in> set (wheld (w_pc (workers t ! w))) \<or> r \<in> set (buf (chans t ! w)) \<Longrightarrow>
       UID r = w_uid (workers t ! w)"
      using assms
      by (cases rule: userDelayer_step_cases)
         (use L(8) in \<open>auto simp: upd_defs split: if_splits\<close>)
    show "\<not> w < length (workers s) \<Longrightarrow> w < length (chans s) \<Longrightarrow> \<not> closed (chans t ! w)"
      using lt by simp
  qed
qed

text \<open>The monitor touches none of this.\<close>

lemma core_m:
  assumes "inv_core s" "monitor_step s = Some t" shows "inv_core t"
proof -
  have same: "mu t = mu s" "d_pc t = d_pc s" "workers t = workers s" "chans t = chans s"
    "activeDelayers t = activeDelayers s"
    and p: "panicked t = None \<or> panicked t = Some MonitorAbort"
    using assms(2) coreD(7)[OF assms(1)]
    by (cases rule: monitor_stepE; simp add: inv_panic_def)+
  have "dfacts (d_pc s) t"
    by (rule dfacts_frame[OF core_dfacts[OF assms(1)]]) (simp_all add: same)
  then show ?thesis
    using coreD[OF assms(1)] p
    by (simp add: inv_core_def inv_lock_def inv_shape_def inv_pcs_def inv_table_def
          inv_disp_def inv_chan_def inv_panic_def same)
qed

lemma inv_core_init: "inv_core (init inp)"
  by (simp add: inv_core_def init_def inv_defs)

lemma inv_core_step:
  assumes "inv_core s" "step a s = Some t" shows "inv_core t"
proof (cases a)
  case ADisp
  then have *: "processor_step s = Some t"
    using assms(2) by (simp add: step_def split: if_splits)
  show ?thesis
    unfolding inv_core_def
    by (intro conjI lock_d[OF assms(1) *] shape_d[OF assms(1) *] pcs_d[OF assms(1) *]
          table_d[OF assms(1) *] disp_d[OF assms(1) *] chan_d[OF assms(1) *]
          panic_d[OF assms(1) *])
next
  case (AWorker w c)
  then have *: "userDelayer_step w c s = Some t"
    using assms(2) by (simp add: step_def split: if_splits)
  show ?thesis
    unfolding inv_core_def
    by (intro conjI lock_w[OF assms(1) *] shape_w[OF assms(1) *] pcs_w[OF assms(1) *]
          table_w[OF assms(1) *] disp_w[OF assms(1) *] chan_w[OF assms(1) *]
          panic_w[OF assms(1) *])
next
  case AMon
  then have "monitor_step s = Some t"
    using assms(2) by (simp add: step_def split: if_splits)
  then show ?thesis using core_m[OF assms(1)] by simp
qed

lemma inv_core_run:
  assumes "inv_core s" "run sched s = Some t" shows "inv_core t"
  using assms
proof (induction sched arbitrary: s)
  case Nil
  then show ?case by simp
next
  case (Cons a sched)
  then show ?case
    by (auto split: option.splits dest: inv_core_step)
qed

lemma reachable_core: "run sched (init inp) = Some s \<Longrightarrow> inv_core s"
  using inv_core_run[OF inv_core_init] .


subsection \<open>Order per key\<close>

lemma sink_calls_append [simp]: "sink_calls (t @ u) = sink_calls t @ sink_calls u"
  by (induction t rule: sink_calls.induct) auto

lemma for_key_append [simp]: "for_key k (xs @ ys) = for_key k xs @ for_key k ys"
  by (simp add: for_key_def)

lemma for_key_simps [simp]:
  "for_key k [] = []"
  "for_key k (r # rs) = (if UID r = k then r # for_key k rs else for_key k rs)"
  by (simp_all add: for_key_def)

lemma executed_call [simp]:
  "executed (s\<lparr>checkCh := x, trace := trace s @ [(a, EvCall r)]\<rparr>) = executed s @ [r]"
  by (simp add: executed_def)

lemma input_d:
  assumes "processor_step s = Some t" "consumed s @ input s = inp"
  shows "consumed t @ input t = inp"
  using assms by (cases rule: processor_stepE) (auto simp: Unlock_def)

lemma order_send1:
  assumes "inv_table s" "d_pc s = D_Send1 req ch" "activeDelayers s (UID req) = Some ch"
    "ch < length (workers s)" "w_uid (workers s ! ch) = UID req"
    "length (chans s) = length (workers s)"
    "for_key k (consumed s) = for_key k (executed s) @ pendingK k s"
  shows "for_key k (consumed s) = for_key k (executed s) @
    pendingK k (s\<lparr>chans := (chans s)[ch := (chans s ! ch)\<lparr>buf := buf (chans s ! ch) @ [req]\<rparr>],
                  d_pc := D_Unlock1\<rparr>)"
proof (cases "k = UID req")
  case True
  then show ?thesis using assms by (simp add: pendingK_def)
next
  case False
  have "\<And>c. activeDelayers s k = Some c \<Longrightarrow> c \<noteq> ch"
    using assms(1,2,5) False by (auto simp: inv_table_def)
  then show ?thesis
    using assms(2,7) False by (auto simp: pendingK_def split: option.splits)
qed

lemma order_d:
  assumes "inv_core s" "processor_step s = Some t"
    "\<forall>k. for_key k (consumed s) = for_key k (executed s) @ pendingK k s"
  shows "for_key k (consumed t) = for_key k (executed t) @ pendingK k t"
  using assms(1,2)
proof (cases rule: processor_step_cases)
  case (Send1 req ch)
  then show ?thesis
    using order_send1[OF coreD(4)[OF assms(1)] Send1(1,3,4,5,7) assms(3)[rule_format, of k]]
    by (simp add: executed_def)
qed (use assms(3)[rule_format, of k] coreD(4)[OF assms(1)] in
      \<open>auto simp: pendingK_def executed_def inv_table_def nth_append nth_list_update
             split: option.splits\<close>)

text \<open>A worker's step, seen from the key of its own entry and from the other keys.\<close>

lemma order_w_own:
  assumes "inv_core s" "userDelayer_step w c s = Some t"
    "activeDelayers s k = Some w"
  shows "for_key k (executed t) @ pendingK k t = for_key k (executed s) @ pendingK k s"
proof -
  note lt = userDelayer_step_lt[OF assms(2)]
  have k: "w_uid (workers s ! w) = k"
    using assms(1,3) lt core_dnew_fresh[OF assms(1) lt, of w]
    by (cases "d_pc s") (auto simp: inv_core_def inv_table_def)
  show ?thesis
    using assms k
    by (cases rule: userDelayer_step_cases)
       (auto simp: pendingK_def executed_def upd_defs)
qed

lemma order_w_other:
  assumes "inv_core s" "userDelayer_step w c s = Some t"
    "activeDelayers s k \<noteq> Some w"
  shows "for_key k (executed t) = for_key k (executed s)" and "pendingK k t = pendingK k s"
proof -
  note lt = userDelayer_step_lt[OF assms(2)]
  note F = userDelayer_step_frame[OF assms(1,2)]
  show "for_key k (executed t) = for_key k (executed s)"
    using assms
    by (cases rule: userDelayer_step_cases) (auto simp: executed_def upd_defs)
  have tab: "activeDelayers t k = activeDelayers s k"
    using assms
    by (cases rule: userDelayer_step_cases) (auto simp: upd_defs)
  show "pendingK k t = pendingK k s"
    using assms(3) by (auto simp: pendingK_def tab F split: option.splits)
qed

lemma order_w:
  assumes "inv_core s" "userDelayer_step w c s = Some t"
    "\<forall>k. for_key k (consumed s) = for_key k (executed s) @ pendingK k s"
  shows "for_key k (consumed t) = for_key k (executed t) @ pendingK k t"
proof (cases "activeDelayers s k = Some w")
  case True
  show ?thesis
    using order_w_own[OF assms(1,2) True] assms(3)[rule_format, of k]
      userDelayer_step_frame(3)[OF assms(1,2)]
    by simp
next
  case False
  show ?thesis
    using order_w_other[OF assms(1,2) False] assms(3)[rule_format, of k]
      userDelayer_step_frame(3)[OF assms(1,2)]
    by simp
qed

lemma inv_order_init: "inv_order inp (init inp)"
  by (simp add: inv_order_def init_def pendingK_def executed_def)

lemma inv_order_step:
  assumes "inv_core s" "inv_order inp s" "step a s = Some t" shows "inv_order inp t"
proof (cases a)
  case ADisp
  then have *: "processor_step s = Some t"
    using assms(3) by (simp add: step_def split: if_splits)
  show ?thesis
    using assms(2) input_d[OF *] order_d[OF assms(1) *]
    by (simp add: inv_order_def)
next
  case (AWorker w c)
  then have *: "userDelayer_step w c s = Some t"
    using assms(3) by (simp add: step_def split: if_splits)
  show ?thesis
    using assms(2) userDelayer_step_frame(2,3)[OF assms(1) *] order_w[OF assms(1) *]
    by (simp add: inv_order_def)
next
  case AMon
  then have "monitor_step s = Some t"
    using assms(3) by (simp add: step_def split: if_splits)
  then have same: "activeDelayers t = activeDelayers s" "workers t = workers s"
    "chans t = chans s" "d_pc t = d_pc s" "trace t = trace s"
    "consumed t = consumed s" "input t = input s"
    by (cases rule: monitor_stepE; simp)+
  have "pendingK k t = pendingK k s" for k
    unfolding pendingK_def same ..
  then show ?thesis
    using assms(2) by (simp add: inv_order_def executed_def same)
qed

lemma inv_order_run:
  assumes "inv_core s" "inv_order inp s" "run sched s = Some t" shows "inv_order inp t"
  using assms
proof (induction sched arbitrary: s)
  case Nil
  then show ?case by simp
next
  case (Cons a sched)
  then show ?case
    by (auto split: option.splits dest: inv_core_step inv_order_step)
qed

lemma reachable_order: "run sched (init inp) = Some s \<Longrightarrow> inv_order inp s"
  using inv_order_run[OF inv_core_init inv_order_init] .


subsection \<open>The monitor's stream of ids\<close>

lemma mon_d:
  assumes "inv_core s" "inv_mon s" "processor_step s = Some t" shows "inv_mon t"
  using assms(1,3,2)
  by (cases rule: processor_step_cases) (auto simp: inv_mon_def executed_def)

lemma mon_w:
  assumes "inv_core s" "inv_mon s" "userDelayer_step w c s = Some t" shows "inv_mon t"
  using assms(1,3,2)
  by (cases rule: userDelayer_step_cases) (auto simp: inv_mon_def executed_def upd_defs)

lemma mon_m:
  assumes "panicked s = None" "inv_mon s" "monitor_step s = Some t" shows "inv_mon t"
  using assms(3,1,2)
  by (cases rule: monitor_stepE) (auto simp: inv_mon_def executed_def)

lemma inv_mon_init: "inv_mon (init inp)"
  by (simp add: inv_mon_def init_def executed_def)

lemma inv_mon_step:
  assumes "inv_core s" "inv_mon s" "step a s = Some t" shows "inv_mon t"
proof (cases a)
  case ADisp
  then show ?thesis
    using assms mon_d by (auto simp: step_def split: if_splits)
next
  case (AWorker w c)
  then show ?thesis
    using assms mon_w by (auto simp: step_def split: if_splits)
next
  case AMon
  then show ?thesis
    using assms mon_m by (auto simp: step_def split: if_splits)
qed

lemma inv_mon_run:
  assumes "inv_core s" "inv_mon s" "run sched s = Some t" shows "inv_mon t"
  using assms
proof (induction sched arbitrary: s)
  case Nil
  then show ?case by simp
next
  case (Cons a sched)
  then show ?case
    by (auto split: option.splits dest: inv_core_step inv_mon_step)
qed

lemma reachable_mon: "run sched (init inp) = Some s \<Longrightarrow> inv_mon s"
  using inv_mon_run[OF inv_core_init inv_mon_init] .


subsection \<open>The events of one worker\<close>

lemma wtrace_trace_update [simp]:
  "wtrace w (trace_update f s) = map snd (filter (\<lambda>p. fst p = Worker w) (f (trace s)))"
  by (simp add: wtrace_def)

lemma wtrace_other_update [simp]:
  "wtrace w (input_update f1 s) = wtrace w s"
  "wtrace w (mu_update f2 s) = wtrace w s"
  "wtrace w (activeDelayers_update f3 s) = wtrace w s"
  "wtrace w (chans_update f4 s) = wtrace w s"
  "wtrace w (checkCh_update f5 s) = wtrace w s"
  "wtrace w (nextId_update f6 s) = wtrace w s"
  "wtrace w (d_pc_update f7 s) = wtrace w s"
  "wtrace w (workers_update f8 s) = wtrace w s"
  "wtrace w (panicked_update f9 s) = wtrace w s"
  "wtrace w (consumed_update f10 s) = wtrace w s"
  "wtrace w (received_update f11 s) = wtrace w s"
  by (simp_all add: wtrace_def)

lemma wtrace_fold [simp]:
  "map snd (filter (\<lambda>p. fst p = Worker w) (trace s)) = wtrace w s"
  by (simp add: wtrace_def)

lemma throttled_Nil [simp]: "throttled []"
  by (simp add: throttled_def)

lemma throttled_single [simp]: "throttled [e]"
  by (simp add: throttled_def)

lemma seeded_snoc: "1 < length h \<Longrightarrow> seeded (h @ [e]) = seeded h"
  by (cases h rule: seeded.cases) auto

lemma throttled_tl_snoc:
  assumes "1 < length h" "throttled (tl h)" "follows (last h) e"
  shows "throttled (tl (h @ [e]))"
proof -
  have "tl h \<noteq> []" using assms(1) by (cases h) auto
  moreover have "last (tl h) = last h" using assms(1) by (cases h) auto
  moreover have "tl (h @ [e]) = tl h @ [e]" using assms(1) by (cases h) auto
  ultimately show ?thesis
    using assms(2,3) by (simp add: throttled_def successively_append_iff)
qed

text \<open>The state of a worker's events at the lines that are not listed in \<open>whist_ok\<close>.\<close>

lemma hist_d:
  assumes "inv_core s" "inv_hist s" "processor_step s = Some t" shows "inv_hist t"
  using assms(1,3,2)
  by (cases rule: processor_step_cases)
     (auto simp: inv_hist_def nth_append less_Suc_eq_le)

text \<open>The acting worker: its own events and line.\<close>

lemma hist_w_own:
  assumes "inv_core s" "userDelayer_step w c s = Some t"
    "seeded (wtrace w s)" "throttled (tl (wtrace w s))"
    "whist_ok (w_pc (workers s ! w)) (wtrace w s)"
  shows "seeded (wtrace w t) \<and> throttled (tl (wtrace w t)) \<and>
         whist_ok (w_pc (workers t ! w)) (wtrace w t)"
  using assms
  by (cases rule: userDelayer_step_cases)
     (auto simp: upd_defs seeded_snoc throttled_tl_snoc elim: seeded.elims)

lemma hist_w_other:
  assumes "inv_core s" "userDelayer_step w c s = Some t" "v \<noteq> w"
  shows "wtrace v t = wtrace v s"
  using assms
  by (cases rule: userDelayer_step_cases) (auto simp: upd_defs)

lemma hist_w:
  assumes "inv_core s" "inv_hist s" "userDelayer_step w c s = Some t" shows "inv_hist t"
proof -
  note lt = userDelayer_step_lt[OF assms(3)]
  note F = userDelayer_step_frame[OF assms(1,3)]
  have "wtrace v t = []" if "length (workers t) \<le> v" for v
  proof -
    from that have "v \<noteq> w" "length (workers s) \<le> v" using lt F(4) by auto
    then show ?thesis
      using hist_w_other[OF assms(1,3)] assms(2) by (simp add: inv_hist_def)
  qed
  moreover have "seeded (wtrace v t) \<and> throttled (tl (wtrace v t)) \<and>
        whist_ok (w_pc (workers t ! v)) (wtrace v t)" if v: "v < length (workers t)" for v
  proof (cases "v = w")
    case True
    then show ?thesis
      using hist_w_own[OF assms(1,3)] assms(2) lt by (simp add: inv_hist_def)
  next
    case False
    then show ?thesis
      using hist_w_other[OF assms(1,3) False] F(6)[OF False] v F(4) assms(2)
      by (simp add: inv_hist_def)
  qed
  ultimately show ?thesis by (simp add: inv_hist_def)
qed

lemma hist_m:
  assumes "inv_hist s" "monitor_step s = Some t" shows "inv_hist t"
  using assms(2,1)
  by (cases rule: monitor_stepE) (simp_all add: inv_hist_def)

lemma inv_hist_init: "inv_hist (init inp)"
  by (simp add: inv_hist_def init_def wtrace_def)

lemma inv_hist_step:
  assumes "inv_core s" "inv_hist s" "step a s = Some t" shows "inv_hist t"
proof (cases a)
  case ADisp
  then show ?thesis
    using assms hist_d by (auto simp: step_def split: if_splits)
next
  case (AWorker w c)
  then show ?thesis
    using assms hist_w by (auto simp: step_def split: if_splits)
next
  case AMon
  then show ?thesis
    using assms hist_m by (auto simp: step_def split: if_splits)
qed

lemma inv_hist_run:
  assumes "inv_core s" "inv_hist s" "run sched s = Some t" shows "inv_hist t"
  using assms
proof (induction sched arbitrary: s)
  case Nil
  then show ?case by simp
next
  case (Cons a sched)
  then show ?case
    by (auto split: option.splits dest: inv_core_step inv_hist_step)
qed

lemma reachable_hist: "run sched (init inp) = Some s \<Longrightarrow> inv_hist s"
  using inv_hist_run[OF inv_core_init inv_hist_init] .

section \<open>The claims\<close>

lemma run_the: "run sched s \<noteq> None \<Longrightarrow> run sched s = Some (the (run sched s))"
  by simp

text \<open>
  C1. For every input sequence and every schedule, the requests of a key that were
  handed to the execution sink so far, in the order of the calls and whoever made each
  call (the dispatcher or the key's worker), are an initial segment of the requests of
  that key in the order of the input.
\<close>

theorem per_key_fifo:
  assumes "run sched (init inp) = Some s"
  shows "prefix (for_key k (executed s)) (for_key k inp)"
proof -
  from reachable_order[OF assms]
  have "consumed s @ input s = inp"
    and "for_key k (consumed s) = for_key k (executed s) @ pendingK k s"
    by (simp_all add: inv_order_def)
  then have "for_key k inp = for_key k (executed s) @ (pendingK k s @ for_key k (input s))"
    by (metis append.assoc for_key_append)
  then show ?thesis by (simp add: prefix_def)
qed

lemma demo_run: "run demo_sched (init demo_input) = Some demo_state"
proof -
  have "run demo_sched (init demo_input) \<noteq> None" by code_simp
  then show ?thesis by (simp add: demo_state_def)
qed

lemma demo_run1: "run demo_sched1 (init demo_input) = Some demo_state1"
proof -
  have "run demo_sched1 (init demo_input) \<noteq> None" by code_simp
  then show ?thesis by (simp add: demo_state1_def)
qed

theorem per_key_fifo_witness:
  "map fst (sink_calls (trace demo_state)) = [Dispatcher, Worker 0, Worker 0] \<and>
   for_key ''K'' (executed demo_state) = demo_input \<and>
   prefix (for_key ''K'' (executed demo_state)) (for_key ''K'' demo_input)"
proof -
  have "map fst (sink_calls (trace demo_state)) = [Dispatcher, Worker 0, Worker 0]"
    by code_simp
  moreover have "for_key ''K'' (executed demo_state) = demo_input"
    by code_simp
  ultimately show ?thesis
    using per_key_fifo[OF demo_run, of "''K''"] by simp
qed

text \<open>How the routing table changes in one step.\<close>

lemma table_change:
  assumes "inv_core s" "step a s = Some t" "activeDelayers t k \<noteq> activeDelayers s k"
  shows "(a = ADisp \<and> mu s = Some Dispatcher \<and> activeDelayers s k = None \<and>
            activeDelayers t k = Some (length (workers s)) \<and>
            (\<exists>req. d_pc s = D_Install req (length (workers s)) \<and> UID req = k)) \<or>
         (\<exists>w x. a = AWorker w x \<and> mu s = Some (Worker w) \<and> w < length (workers s) \<and>
            w_pc (workers s ! w) = W_Delete1 \<and> w_uid (workers s ! w) = k \<and>
            activeDelayers s k = Some w \<and> activeDelayers t k = None)"
proof (cases a)
  case ADisp
  then have "processor_step s = Some t"
    using assms(2) by (simp add: step_def split: if_splits)
  then show ?thesis
    using assms(1,3) ADisp
    by (cases rule: processor_step_cases[OF assms(1)]) (auto split: if_splits)
next
  case (AWorker w x)
  then have "userDelayer_step w x s = Some t"
    using assms(2) by (simp add: step_def split: if_splits)
  then show ?thesis
    using assms(1,3) AWorker
    by (cases rule: userDelayer_step_cases[OF assms(1)]) (auto simp: upd_defs split: if_splits)
next
  case AMon
  then have "monitor_step s = Some t"
    using assms(2) by (simp add: step_def split: if_splits)
  then show ?thesis
    using assms(3) by (cases rule: monitor_stepE) auto
qed

text \<open>
  C2. In every reachable state no two workers service the same key, and a worker that
  services a key owns the key's routing entry. An entry is installed only by the
  dispatcher, holding the mutex, for a key that has no entry; it is removed only by the
  worker it points to, holding the mutex, at line 109.
\<close>

theorem one_worker_per_key:
  assumes "run sched (init inp) = Some s"
  shows "(\<forall>v w. v < length (workers s) \<and> w < length (workers s) \<and>
            servicing (w_pc (workers s ! v)) \<and> servicing (w_pc (workers s ! w)) \<and>
            w_uid (workers s ! v) = w_uid (workers s ! w) \<longrightarrow> v = w) \<and>
         (\<forall>w < length (workers s). servicing (w_pc (workers s ! w)) \<longrightarrow>
            activeDelayers s (w_uid (workers s ! w)) = Some w) \<and>
         (\<forall>a t k. step a s = Some t \<and> activeDelayers t k \<noteq> activeDelayers s k \<longrightarrow>
            (a = ADisp \<and> mu s = Some Dispatcher \<and> activeDelayers s k = None \<and>
               activeDelayers t k = Some (length (workers s)) \<and>
               (\<exists>req. d_pc s = D_Install req (length (workers s)) \<and> UID req = k)) \<or>
            (\<exists>w x. a = AWorker w x \<and> mu s = Some (Worker w) \<and> w < length (workers s) \<and>
               w_pc (workers s ! w) = W_Delete1 \<and> w_uid (workers s ! w) = k \<and>
               activeDelayers s k = Some w \<and> activeDelayers t k = None))"
proof -
  note I = reachable_core[OF assms]
  have own: "\<And>w. w < length (workers s) \<Longrightarrow> servicing (w_pc (workers s ! w)) \<Longrightarrow>
      activeDelayers s (w_uid (workers s ! w)) = Some w"
    using core_worker(5)[OF I] .
  have "v = w" if "v < length (workers s)" "w < length (workers s)"
      "servicing (w_pc (workers s ! v))" "servicing (w_pc (workers s ! w))"
      "w_uid (workers s ! v) = w_uid (workers s ! w)" for v w
    using own[OF that(1,3)] own[OF that(2,4)] that(5) by (metis option.inject)
  then show ?thesis
    using own table_change[OF I] by blast
qed

theorem one_worker_per_key_witness:
  "length (workers demo_state1) = 1 \<and> servicing (w_pc (workers demo_state1 ! 0)) \<and>
   activeDelayers demo_state1 (w_uid (workers demo_state1 ! 0)) = Some 0"
proof -
  have "length (workers demo_state1) = 1" "servicing (w_pc (workers demo_state1 ! 0))"
    by code_simp+
  then show ?thesis
    using one_worker_per_key[OF demo_run1] by simp
qed

text \<open>
  The sentence of C4 speaks of every request read while the key has an entry. Between
  the read of line 33 and the lookup of line 35 the worker of the key can expire: in
  \<open>race_read\<close> the dispatcher has read \<open>b\<close> and the key of \<open>b\<close> has an entry with an open
  queue; the worker then deletes the entry and closes the queue, and the dispatcher,
  finding no entry, calls the sink for \<open>b\<close> itself. At no moment is \<open>b\<close> on a queue.
\<close>

theorem routed_to_worker_counterexample:
  "run race_read_sched (init race_input) = Some race_read \<and>
   consumed race_read = race_input \<and>
   d_pc race_read = D_Lock (rq ''K'' ''b'' False 1) \<and>
   activeDelayers race_read ''K'' = Some 0 \<and>
   chans race_read = [\<lparr>buf = [], closed = False\<rparr>] \<and>
   run race_expire_sched race_read = Some race_state \<and>
   panicked race_state = None \<and>
   sink_calls (trace race_state) =
     [(Worker 0, rq ''K'' ''a'' True 0), (Dispatcher, rq ''K'' ''b'' False 1)] \<and>
   activeDelayers race_state ''K'' = None \<and>
   chans race_state = [\<lparr>buf = [], closed = True\<rparr>] \<and>
   never_queued (rq ''K'' ''b'' False 1) race_expire_sched race_read"
proof -
  have 1: "run race_read_sched (init race_input) \<noteq> None"
    by code_simp
  then have r1: "run race_read_sched (init race_input) = Some race_read"
    by (simp add: race_read_def)
  have 2: "run race_expire_sched race_read \<noteq> None"
    by code_simp
  then have r2: "run race_expire_sched race_read = Some race_state"
    by (simp add: race_state_def)
  have "consumed race_read = race_input"
    by code_simp
  moreover have "d_pc race_read = D_Lock (rq ''K'' ''b'' False 1)"
    by code_simp
  moreover have "activeDelayers race_read ''K'' = Some 0"
    by code_simp
  moreover have "chans race_read = [\<lparr>buf = [], closed = False\<rparr>]"
    by code_simp
  moreover have "panicked race_state = None"
    by code_simp
  moreover have "sink_calls (trace race_state) =
     [(Worker 0, rq ''K'' ''a'' True 0), (Dispatcher, rq ''K'' ''b'' False 1)]"
    by code_simp
  moreover have "activeDelayers race_state ''K'' = None"
    by code_simp
  moreover have "chans race_state = [\<lparr>buf = [], closed = True\<rparr>]"
    by code_simp
  moreover have "never_queued (rq ''K'' ''b'' False 1) race_expire_sched race_read"
    by code_simp
  ultimately show ?thesis
    using r1 r2 by simp
qed

text \<open>
  C4, as of the lookup. In every reachable state: when the dispatcher, holding the
  mutex, finds an entry for the key of the request it has read, its next step takes it
  to the send on that entry's queue, whatever the delay flag; while it is at that send
  the entry is still the same, and the send appends the request to that queue (or
  blocks while the queue is full); and a step in which the dispatcher itself calls the
  sink for a request is taken only when the table has no entry for the key of that
  request.
\<close>

theorem routed_to_worker:
  assumes "run sched (init inp) = Some s" "panicked s = None"
  shows "(\<forall>req ch. d_pc s = D_Lookup req \<and> activeDelayers s (UID req) = Some ch \<longrightarrow>
            step ADisp s = Some (s\<lparr>d_pc := D_Send1 req ch\<rparr>)) \<and>
         (\<forall>req ch. d_pc s = D_Send1 req ch \<longrightarrow>
            activeDelayers s (UID req) = Some ch \<and> mu s = Some Dispatcher \<and>
            step ADisp s =
              (if length (buf (chans s ! ch)) < chan_cap
               then Some (s\<lparr>chans := (chans s)[ch := (chans s ! ch)
                             \<lparr>buf := buf (chans s ! ch) @ [req]\<rparr>], d_pc := D_Unlock1\<rparr>)
               else None)) \<and>
         (\<forall>t. step ADisp s = Some t \<and> trace t \<noteq> trace s \<longrightarrow>
            (\<exists>req. d_pc s = D_Call req \<and> activeDelayers s (UID req) = None \<and>
               trace t = trace s @ [(Dispatcher, EvCall req)]))"
proof (intro conjI allI impI)
  note I = reachable_core[OF assms(1)]
  fix req ch
  assume "d_pc s = D_Lookup req \<and> activeDelayers s (UID req) = Some ch"
  then show "step ADisp s = Some (s\<lparr>d_pc := D_Send1 req ch\<rparr>)"
    using assms(2) by (simp add: step_def processor_step_def)
next
  note I = reachable_core[OF assms(1)]
  fix req ch
  assume pc: "d_pc s = D_Send1 req ch"
  then have e: "activeDelayers s (UID req) = Some ch"
    using core_dfacts[OF I] by simp
  then show "activeDelayers s (UID req) = Some ch" .
  show "mu s = Some Dispatcher"
    using core_mu_disp[OF I] pc by simp
  have "ch < length (chans s)" "\<not> closed (chans s ! ch)"
    using core_entry(4,5)[OF I e] pc by simp_all
  then show "step ADisp s =
              (if length (buf (chans s ! ch)) < chan_cap
               then Some (s\<lparr>chans := (chans s)[ch := (chans s ! ch)
                             \<lparr>buf := buf (chans s ! ch) @ [req]\<rparr>], d_pc := D_Unlock1\<rparr>)
               else None)"
    using assms(2) pc by (simp add: step_def processor_step_def send_def)
next
  note I = reachable_core[OF assms(1)]
  fix t
  assume "step ADisp s = Some t \<and> trace t \<noteq> trace s"
  then have "processor_step s = Some t" and tr: "trace t \<noteq> trace s"
    by (simp_all add: step_def split: if_splits)
  then show "\<exists>req. d_pc s = D_Call req \<and> activeDelayers s (UID req) = None \<and>
               trace t = trace s @ [(Dispatcher, EvCall req)]"
    using I by (cases rule: processor_step_cases[OF I]) auto
qed

theorem routed_to_worker_witness:
  "d_pc demo_state1 = D_Send1 (rq ''K'' ''c'' False 2) 0 \<and>
   activeDelayers demo_state1 ''K'' = Some 0 \<and>
   map_option (\<lambda>t. buf (chans t ! 0)) (step ADisp demo_state1)
     = Some [rq ''K'' ''b'' True 1, rq ''K'' ''c'' False 2]"
proof -
  have pc: "d_pc demo_state1 = D_Send1 (rq ''K'' ''c'' False 2) 0"
    and p: "panicked demo_state1 = None"
    and u: "UID (rq ''K'' ''c'' False 2) = ''K''"
    by code_simp+
  have "map_option (\<lambda>t. buf (chans t ! 0)) (step ADisp demo_state1)
     = Some [rq ''K'' ''b'' True 1, rq ''K'' ''c'' False 2]"
    by code_simp
  then show ?thesis
    using routed_to_worker[OF demo_run1 p] pc u by simp
qed

text \<open>
  C10. In every reachable state a queue the dispatcher is about to send on is open, and
  the dispatcher holds the mutex under which it looked the queue up (line 35) or made
  it (line 46); a worker that is about to delete its entry or to close its queue holds
  the same mutex, from the test of line 102 to the unlock of line 111. So no step of
  the dispatcher panics with a send on a closed channel.
\<close>

theorem never_send_on_closed:
  assumes "run sched (init inp) = Some s"
  shows "(\<forall>req ch. d_pc s = D_Send1 req ch \<or> d_pc s = D_Send2 req ch \<longrightarrow>
            mu s = Some Dispatcher \<and> activeDelayers s (UID req) = Some ch \<and>
            ch < length (chans s) \<and> \<not> closed (chans s ! ch)) \<and>
         (\<forall>w < length (workers s).
            w_pc (workers s ! w) = W_Len \<or> w_pc (workers s ! w) = W_Delete1 \<or>
            w_pc (workers s ! w) = W_Close1 \<or> w_pc (workers s ! w) = W_Unlock2 \<longrightarrow>
            mu s = Some (Worker w)) \<and>
         panicked s \<noteq> Some SendOnClosed \<and>
         (\<forall>t. step ADisp s = Some t \<longrightarrow> panicked t \<noteq> Some SendOnClosed)"
proof (intro conjI allI impI)
  note I = reachable_core[OF assms]
  fix req ch
  assume pc: "d_pc s = D_Send1 req ch \<or> d_pc s = D_Send2 req ch"
  then show "mu s = Some Dispatcher"
    using core_mu_disp[OF I] by auto
  from pc show e: "activeDelayers s (UID req) = Some ch"
    using core_dfacts[OF I] by auto
  from pc show "ch < length (chans s)"
    using core_entry(4)[OF I e] core_new(1,2)[OF I, of ch] by auto
  from pc show "\<not> closed (chans s ! ch)"
    using core_entry(5)[OF I e] core_new(3)[OF I, of ch] by auto
next
  note I = reachable_core[OF assms]
  fix w
  assume "w < length (workers s)"
    "w_pc (workers s ! w) = W_Len \<or> w_pc (workers s ! w) = W_Delete1 \<or>
     w_pc (workers s ! w) = W_Close1 \<or> w_pc (workers s ! w) = W_Unlock2"
  then show "mu s = Some (Worker w)"
    using core_worker(4)[OF I, of w] by auto
next
  show "panicked s \<noteq> Some SendOnClosed"
    using coreD(7)[OF reachable_core[OF assms]] by (auto simp: inv_panic_def)
next
  fix t assume "step ADisp s = Some t"
  then have "inv_core t"
    using inv_core_step[OF reachable_core[OF assms]] by simp
  from coreD(7)[OF this] show "panicked t \<noteq> Some SendOnClosed"
    by (auto simp: inv_panic_def)
qed

theorem never_send_on_closed_witness:
  "d_pc demo_state1 = D_Send1 (rq ''K'' ''c'' False 2) 0 \<and>
   mu demo_state1 = Some Dispatcher \<and> \<not> closed (chans demo_state1 ! 0) \<and>
   map_option panicked (step ADisp demo_state1) = Some None"
proof -
  have "d_pc demo_state1 = D_Send1 (rq ''K'' ''c'' False 2) 0"
    "map_option panicked (step ADisp demo_state1) = Some None"
    by code_simp+
  then show ?thesis
    using never_send_on_closed[OF demo_run1] by simp
qed

lemma sint_of_nat_small:
  assumes "(n::nat) < 2 ^ 63" shows "sint (of_nat n :: 64 word) = int n"
proof -
  have "int n < int (2 ^ 63)" using assms by (simp only: of_nat_less_iff)
  then have "int n < 2 ^ 63" by simp
  then show ?thesis
    by (simp add: signed_of_nat signed_take_bit_int_eq_self)
qed

lemma demo_run_mon: "run (demo_sched @ [AMon, AMon, AMon]) (init demo_input) = Some demo_state_mon"
proof -
  have "run (demo_sched @ [AMon, AMon, AMon]) (init demo_input) \<noteq> None" by code_simp
  then show ?thesis by (simp add: demo_state_mon_def)
qed

lemma two_key_run: "run (disp 8 @ disp 5) (init two_key_input) = Some two_key_state"
proof -
  have "run (disp 8 @ disp 5) (init two_key_input) \<noteq> None" by code_simp
  then show ?thesis by (simp add: two_key_state_def)
qed

text \<open>
  C9. In every reachable state: the ids of the calls of the sink made so far, by the
  dispatcher and by the workers and in the order of the calls, are the ids the monitor
  has taken followed by those still buffered in \<open>checkCh\<close>. While the monitor has not
  aborted, the ids it accepted are \<open>0, 1, 2, ...\<close>; it accepts the next id exactly when
  that id is, as an \<open>int64\<close>, the number of ids accepted so far (below \<open>2^63\<close> ids: when its
  value is that number), and panics on any other id. After a panic nothing moves, and
  the monitor's panic is the only panic that is reachable.
\<close>

theorem ordering_monitor:
  assumes "run sched (init inp) = Some s"
  shows "map id_req (executed s) = received s @ checkCh s \<and>
         (panicked s = None \<or> panicked s = Some MonitorAbort) \<and>
         (panicked s = None \<longrightarrow>
            nextId s = of_nat (length (received s)) \<and>
            received s = map of_nat [0 ..< length (received s)] \<and>
            (\<forall>i rest. checkCh s = i # rest \<longrightarrow>
               step AMon s =
                 Some (if i = of_nat (length (received s))
                       then s\<lparr>checkCh := rest, received := received s @ [i], nextId := i + 1\<rparr>
                       else s\<lparr>checkCh := rest, received := received s @ [i],
                              panicked := Some MonitorAbort\<rparr>)) \<and>
            (\<forall>i :: 64 word. length (received s) < 2 ^ 63 \<longrightarrow>
               (i = of_nat (length (received s)) \<longleftrightarrow> sint i = int (length (received s))))) \<and>
         (\<forall>a. panicked s \<noteq> None \<longrightarrow> step a s = None)"
proof -
  note M = reachable_mon[OF assms]
  note P = coreD(7)[OF reachable_core[OF assms]]
  have ids: "map id_req (executed s) = received s @ checkCh s"
    using M by (simp add: inv_mon_def)
  have pan: "panicked s = None \<or> panicked s = Some MonitorAbort"
    using P by (simp add: inv_panic_def)
  have halt: "\<forall>a. panicked s \<noteq> None \<longrightarrow> step a s = None"
    by (simp add: step_def)
  have n: "nextId s = of_nat (length (received s))"
    and r: "received s = map of_nat [0 ..< length (received s)]"
    if "panicked s = None"
    using M that by (simp_all add: inv_mon_def)
  have st: "step AMon s =
                 Some (if i = of_nat (length (received s))
                       then s\<lparr>checkCh := rest, received := received s @ [i], nextId := i + 1\<rparr>
                       else s\<lparr>checkCh := rest, received := received s @ [i],
                              panicked := Some MonitorAbort\<rparr>)"
    if "panicked s = None" "checkCh s = i # rest" for i rest
    using that n by (auto simp: step_def monitor_step_def)
  have sg: "(i = of_nat (length (received s))) = (sint i = int (length (received s)))"
    if "length (received s) < 2 ^ 63" for i :: "64 word"
    using sint_of_nat_small[OF that] by (metis word_eq_iff_signed)
  have inner: "nextId s = of_nat (length (received s)) \<and>
            received s = map of_nat [0 ..< length (received s)] \<and>
            (\<forall>i rest. checkCh s = i # rest \<longrightarrow>
               step AMon s =
                 Some (if i = of_nat (length (received s))
                       then s\<lparr>checkCh := rest, received := received s @ [i], nextId := i + 1\<rparr>
                       else s\<lparr>checkCh := rest, received := received s @ [i],
                              panicked := Some MonitorAbort\<rparr>)) \<and>
            (\<forall>i :: 64 word. length (received s) < 2 ^ 63 \<longrightarrow>
               (i = of_nat (length (received s)) \<longleftrightarrow> sint i = int (length (received s))))"
    if p: "panicked s = None"
  proof (intro conjI allI impI)
    show "nextId s = of_nat (length (received s))" by (rule n[OF p])
    show "received s = map of_nat [0 ..< length (received s)]" by (rule r[OF p])
  next
    fix i rest assume "checkCh s = i # rest"
    then show "step AMon s =
                 Some (if i = of_nat (length (received s))
                       then s\<lparr>checkCh := rest, received := received s @ [i], nextId := i + 1\<rparr>
                       else s\<lparr>checkCh := rest, received := received s @ [i],
                              panicked := Some MonitorAbort\<rparr>)"
      by (rule st[OF p])
  next
    fix i :: "64 word" assume "length (received s) < 2 ^ 63"
    then show "(i = of_nat (length (received s))) = (sint i = int (length (received s)))"
      by (rule sg)
  qed
  show ?thesis
    by (intro conjI impI ids pan halt inner)
qed

theorem ordering_monitor_witness:
  "received demo_state_mon = [0, 1, 2] \<and> nextId demo_state_mon = 3 \<and>
   panicked demo_state_mon = None \<and>
   map id_req (executed two_key_state) = [1] \<and> checkCh two_key_state = [1] \<and>
   map_option panicked (step AMon two_key_state) = Some (Some MonitorAbort)"
proof -
  have a: "panicked demo_state_mon = None" "length (received demo_state_mon) = 3"
    by code_simp+
  have b: "panicked two_key_state = None" "checkCh two_key_state = [1]"
    "received two_key_state = []"
    by code_simp+
  note T1 = ordering_monitor[OF demo_run_mon, THEN conjunct2, THEN conjunct2, THEN conjunct1,
      THEN mp, OF a(1)]
  note T2 = ordering_monitor[OF two_key_run]
  note T3 = T2[THEN conjunct2, THEN conjunct2, THEN conjunct1, THEN mp, OF b(1),
      THEN conjunct2, THEN conjunct2, THEN conjunct1, THEN spec, THEN spec, THEN mp, OF b(2)]
  from T1[THEN conjunct1] T1[THEN conjunct2, THEN conjunct1] a(2)
  have "nextId demo_state_mon = 3" "received demo_state_mon = [0, 1, 2]"
    by (simp_all add: upt_rec)
  moreover from T2[THEN conjunct1] b have "map id_req (executed two_key_state) = [1]"
    by simp
  moreover from T3 b(3)
  have "map_option panicked (step AMon two_key_state) = Some (Some MonitorAbort)"
    by simp
  ultimately show ?thesis using a b by simp
qed

lemma disp_unfold: "disp (Suc n) = ADisp # disp n" "disp 0 = []"
  by (simp_all add: disp_def)

lemma work_unfold: "work w (Suc n) = AWorker w Recv # work w n" "work w 0 = []"
  by (simp_all add: work_def)

lemma lookup_run: "run (disp 2) (init [r]) = Some (lookup_state r)"
  by (simp add: lookup_state_def eval_nat_numeral disp_unfold step_def processor_step_def
        init_def Lock_def)

text \<open>
  C5. In every reachable state in which the dispatcher, holding the mutex, has looked
  up the key of its request and found no entry: if the delay flag is set, its next
  four steps make a new queue, install the entry for the key, and put the request on
  the queue, all with the mutex held; the fifth releases the mutex; the sixth spawns
  the worker with that key and that queue. If the flag is clear, its next three steps
  release the mutex and call the sink once for the request: no queue, no entry and no
  worker are added.
\<close>

theorem dispatch_without_entry:
  assumes "run sched (init inp) = Some s" "panicked s = None"
    "d_pc s = D_Lookup req" "activeDelayers s (UID req) = None"
  shows "(NeedsDelay req \<longrightarrow>
            run (disp 4) s =
              Some (s\<lparr>chans := chans s @ [\<lparr>buf = [req], closed = False\<rparr>],
                      activeDelayers := (activeDelayers s)(UID req \<mapsto> length (chans s)),
                      d_pc := D_Unlock2 req (length (chans s))\<rparr>) \<and>
            mu s = Some Dispatcher \<and>
            run (disp 5) s =
              Some (s\<lparr>chans := chans s @ [\<lparr>buf = [req], closed = False\<rparr>],
                      activeDelayers := (activeDelayers s)(UID req \<mapsto> length (chans s)),
                      mu := None,
                      d_pc := D_Go req (length (chans s))\<rparr>) \<and>
            run (disp 6) s =
              Some (s\<lparr>chans := chans s @ [\<lparr>buf = [req], closed = False\<rparr>],
                      activeDelayers := (activeDelayers s)(UID req \<mapsto> length (chans s)),
                      mu := None,
                      workers := workers s @
                        [\<lparr>w_uid = UID req, w_ch = length (chans s), w_pc = W_Recv0,
                          w_timer = Unset\<rparr>],
                      d_pc := D_Range\<rparr>)) \<and>
         (\<not> NeedsDelay req \<and> length (checkCh s) < checkCh_cap \<longrightarrow>
            run (disp 3) s =
              Some (s\<lparr>mu := None, checkCh := checkCh s @ [id_req req],
                      trace := trace s @ [(Dispatcher, EvCall req)], d_pc := D_Range\<rparr>))"
proof -
  note I = reachable_core[OF assms(1)]
  have m: "mu s = Some Dispatcher"
    using core_mu_disp[OF I] assms(3) by simp
  show ?thesis
    using assms(2-4) m
    by (simp add: eval_nat_numeral disp_unfold step_def processor_step_def send_def Unlock_def
          callService_def chan_cap_def nth_append)
qed

theorem dispatch_without_entry_witness:
  "map_option (\<lambda>t. (length (workers t), map buf (chans t), activeDelayers t ''K'', mu t, trace t))
      (run (disp 6) (lookup_state (rq ''K'' ''a'' True 0)))
     = Some (1, [[rq ''K'' ''a'' True 0]], Some 0, None, []) \<and>
   map_option (\<lambda>t. (length (workers t), length (chans t), activeDelayers t ''K'', mu t, trace t))
      (run (disp 3) (lookup_state (rq ''K'' ''a'' False 0)))
     = Some (0, 0, None, None, [(Dispatcher, EvCall (rq ''K'' ''a'' False 0))])"
proof -
  have a: "panicked (lookup_state (rq ''K'' ''a'' True 0)) = None"
    "d_pc (lookup_state (rq ''K'' ''a'' True 0)) = D_Lookup (rq ''K'' ''a'' True 0)"
    "activeDelayers (lookup_state (rq ''K'' ''a'' True 0)) (UID (rq ''K'' ''a'' True 0)) = None"
    "NeedsDelay (rq ''K'' ''a'' True 0)"
    "chans (lookup_state (rq ''K'' ''a'' True 0)) = []"
    "workers (lookup_state (rq ''K'' ''a'' True 0)) = []"
    "trace (lookup_state (rq ''K'' ''a'' True 0)) = []"
    "UID (rq ''K'' ''a'' True 0) = ''K''"
    by code_simp+
  have b: "panicked (lookup_state (rq ''K'' ''a'' False 0)) = None"
    "d_pc (lookup_state (rq ''K'' ''a'' False 0)) = D_Lookup (rq ''K'' ''a'' False 0)"
    "activeDelayers (lookup_state (rq ''K'' ''a'' False 0)) (UID (rq ''K'' ''a'' False 0)) = None"
    "\<not> NeedsDelay (rq ''K'' ''a'' False 0)"
    "checkCh (lookup_state (rq ''K'' ''a'' False 0)) = []"
    "chans (lookup_state (rq ''K'' ''a'' False 0)) = []"
    "workers (lookup_state (rq ''K'' ''a'' False 0)) = []"
    "trace (lookup_state (rq ''K'' ''a'' False 0)) = []"
    "activeDelayers (lookup_state (rq ''K'' ''a'' False 0)) ''K'' = None"
    by code_simp+
  note T1 = dispatch_without_entry[OF lookup_run a(1-3), THEN conjunct1, THEN mp, OF a(4),
      THEN conjunct2, THEN conjunct2, THEN conjunct2]
  have c: "\<not> NeedsDelay (rq ''K'' ''a'' False 0) \<and>
      length (checkCh (lookup_state (rq ''K'' ''a'' False 0))) < checkCh_cap"
    using b by (simp add: checkCh_cap_def)
  note T2 = dispatch_without_entry[OF lookup_run b(1-3), THEN conjunct2, THEN mp, OF c]
  show ?thesis
    unfolding T1 T2 using a b by simp
qed

lemma fired_empty_run:
  "run (disp 8 @ work 0 3 @ [AWorker 0 Timeout]) (init [rq ''K'' ''a'' True 0]) = Some fired_empty"
proof -
  have "run (disp 8 @ work 0 3 @ [AWorker 0 Timeout]) (init [rq ''K'' ''a'' True 0]) \<noteq> None"
    by code_simp
  then show ?thesis by (simp add: fired_empty_def)
qed

lemma fired_nonempty_run:
  "run (disp 8 @ work 0 3 @ disp 5 @ [AWorker 0 Timeout]) (init throttle_input)
     = Some fired_nonempty"
proof -
  have "run (disp 8 @ work 0 3 @ disp 5 @ [AWorker 0 Timeout]) (init throttle_input) \<noteq> None"
    by code_simp
  then show ?thesis by (simp add: fired_nonempty_def)
qed

text \<open>
  C7. In every reachable state in which the timer of worker \<open>w\<close> has fired (the worker
  is at line 100) and the mutex is free, the next steps of the worker are these. With a
  non-empty queue, four steps take the mutex, re-arm the timer, release the mutex and
  return to the \<open>select\<close>: the routing table and the queues are as before. With an empty
  queue, four steps take the mutex, delete the entry of the worker's key and close the
  queue, the mutex being held throughout; the fifth releases the mutex and the sixth
  ends the worker.
\<close>

theorem idle_timer_expiry:
  assumes "run sched (init inp) = Some s" "panicked s = None"
    "w < length (workers s)" "w_pc (workers s ! w) = W_Lock1" "mu s = None"
  shows "(buf (chans s ! w) \<noteq> [] \<longrightarrow>
            run (work w 3) s =
              Some (s\<lparr>mu := Some (Worker w), trace := trace s @ [(Worker w, EvArm)],
                      workers := (workers s)[w := (workers s ! w)
                        \<lparr>w_timer := Armed, w_pc := W_Unlock1\<rparr>]\<rparr>) \<and>
            run (work w 4) s =
              Some (s\<lparr>trace := trace s @ [(Worker w, EvArm)], mu := None,
                      workers := (workers s)[w := (workers s ! w)
                        \<lparr>w_timer := Armed, w_pc := W_Select\<rparr>]\<rparr>)) \<and>
         (buf (chans s ! w) = [] \<longrightarrow>
            run (work w 2) s =
              Some (s\<lparr>mu := Some (Worker w),
                      workers := (workers s)[w := (workers s ! w)\<lparr>w_pc := W_Delete1\<rparr>]\<rparr>) \<and>
            run (work w 4) s =
              Some (s\<lparr>mu := Some (Worker w),
                      activeDelayers := (activeDelayers s)(w_uid (workers s ! w) := None),
                      chans := (chans s)[w := (chans s ! w)\<lparr>closed := True\<rparr>],
                      workers := (workers s)[w := (workers s ! w)\<lparr>w_pc := W_Unlock2\<rparr>]\<rparr>) \<and>
            run (work w 6) s =
              Some (s\<lparr>activeDelayers := (activeDelayers s)(w_uid (workers s ! w) := None),
                      chans := (chans s)[w := (chans s ! w)\<lparr>closed := True\<rparr>],
                      mu := None,
                      workers := (workers s)[w := (workers s ! w)
                        \<lparr>w_timer := Stopped, w_pc := W_Done\<rparr>]\<rparr>))"
proof -
  note I = reachable_core[OF assms(1)]
  note L = core_worker[OF I assms(3)]
  have c: "w_ch (workers s ! w) = w" "w < length (chans s)" "\<not> closed (chans s ! w)"
    using L assms(4) by simp_all
  show ?thesis
    using assms(2-5) c
    by (simp add: eval_nat_numeral work_unfold step_def userDelayer_step_def Lock_def
          Unlock_def close_chan_def upd_defs)
qed

theorem idle_timer_expiry_witness:
  "map_option (\<lambda>t. (w_pc (workers t ! 0), w_timer (workers t ! 0), activeDelayers t ''K'',
        map buf (chans t), mu t)) (run (work 0 4) fired_nonempty)
     = Some (W_Select, Armed, Some 0, [[rq ''K'' ''b'' True 1]], None) \<and>
   map_option (\<lambda>t. (w_pc (workers t ! 0), activeDelayers t ''K'', map closed (chans t), mu t))
        (run (work 0 6) fired_empty)
     = Some (W_Done, None, [True], None)"
proof -
  have a: "panicked fired_nonempty = None" "0 < length (workers fired_nonempty)"
    "w_pc (workers fired_nonempty ! 0) = W_Lock1" "mu fired_nonempty = None"
    and a': "buf (chans fired_nonempty ! 0) \<noteq> []"
    and a'': "activeDelayers fired_nonempty ''K'' = Some 0"
      "map buf (chans fired_nonempty) = [[rq ''K'' ''b'' True 1]]"
      "length (workers fired_nonempty) = 1"
    by code_simp+
  have b: "panicked fired_empty = None" "0 < length (workers fired_empty)"
    "w_pc (workers fired_empty ! 0) = W_Lock1" "mu fired_empty = None"
    and b': "buf (chans fired_empty ! 0) = []"
    and b'': "w_uid (workers fired_empty ! 0) = ''K''" "map closed (chans fired_empty) = [False]"
      "length (workers fired_empty) = 1"
    by code_simp+
  note T1 = idle_timer_expiry[OF fired_nonempty_run a, THEN conjunct1, THEN mp, OF a',
      THEN conjunct2]
  note T2 = idle_timer_expiry[OF fired_empty_run b, THEN conjunct2, THEN mp, OF b',
      THEN conjunct2, THEN conjunct2]
  have l: "\<And>xs :: bool list. xs = [False] \<Longrightarrow> length xs = 1" by simp
  have "length (chans fired_empty) = 1"
    using l[OF b''(2)] by simp
  then show ?thesis
    unfolding T1 T2 using a'' b'' by (simp add: map_update list_update_code)
qed

lemma throttle_run: "run (disp 8 @ disp 5 @ work 0 9) (init throttle_input) = Some throttle_state"
proof -
  have "run (disp 8 @ disp 5 @ work 0 9) (init throttle_input) \<noteq> None" by code_simp
  then show ?thesis by (simp add: throttle_state_def)
qed

text \<open>
  C8, as stated, for every request a worker takes from its queue, the seed request
  included: a call of the sink for a delay-flagged request is followed by the sleep.
  It fails for the seed request: after the call for it (line 74) the worker arms its
  timer (line 79) without sleeping.
\<close>

theorem delay_throttle_counterexample:
  "run (disp 8 @ disp 5 @ work 0 9) (init throttle_input) \<noteq> None \<and>
   NeedsDelay (rq ''K'' ''a'' True 0) \<and>
   take 2 (wtrace 0 throttle_state) = [EvCall (rq ''K'' ''a'' True 0), EvArm] \<and>
   \<not> throttled (wtrace 0 throttle_state)"
  unfolding throttled_def by code_simp

text \<open>
  C8, amended. In every reachable state the events of a worker start with the call of
  the sink for its seed request, followed by the arming of the timer; in all its later
  events a call of the sink for a delay-flagged request is followed by the sleep of
  line 93, and that sleep by the re-arming of the timer of line 96, before any other
  call.
\<close>

theorem delay_throttle:
  assumes "run sched (init inp) = Some s" "w < length (workers s)"
  shows "seeded (wtrace w s) \<and> throttled (tl (wtrace w s))"
  using reachable_hist[OF assms(1)] assms(2) by (simp add: inv_hist_def)

theorem delay_throttle_witness:
  "wtrace 0 throttle_state =
     [EvCall (rq ''K'' ''a'' True 0), EvArm, EvCall (rq ''K'' ''b'' True 1), EvSleep, EvArm] \<and>
   seeded (wtrace 0 throttle_state) \<and> throttled (tl (wtrace 0 throttle_state))"
proof -
  have "0 < length (workers throttle_state)"
    "wtrace 0 throttle_state =
     [EvCall (rq ''K'' ''a'' True 0), EvArm, EvCall (rq ''K'' ''b'' True 1), EvSleep, EvArm]"
    by code_simp+
  then show ?thesis
    using delay_throttle[OF throttle_run, of 0] by simp
qed

subsection \<open>A full queue and a fired timer\<close>

lemma run_append: "run (xs @ ys) s = (case run xs s of None \<Rightarrow> None | Some t \<Rightarrow> run ys t)"
  by (induction xs arbitrary: s) (auto split: option.splits)

lemma run_append_Some:
  "run xs s = Some t \<Longrightarrow> run ys t = Some u \<Longrightarrow> run (xs @ ys) s = Some u"
  by (simp add: run_append)

lemma disp_add: "disp (m + n) = disp m @ disp n"
  by (simp add: disp_def replicate_add)

lemma burst_Suc: "burst i (Suc n) = rq ''user1'' ''task'' True i # burst (Suc i) n"
  by (simp add: burst_def upt_rec)

lemma burst_snoc: "burst i (Suc n) = burst i n @ [rq ''user1'' ''task'' True (i + n)]"
  by (simp add: burst_def)

lemma length_burst: "length (burst i n) = n"
  by (simp add: burst_def)

lemma UID_burst: "r \<in> set (burst i n) \<Longrightarrow> UID r = ''user1''"
  by (auto simp: burst_def rq_def)

text \<open>
  The dispatcher spawns a worker for the first request, the worker executes it and arms
  its timer, and the timer fires: the worker is at line 100, the mutex is free.
\<close>

lemma spawn_and_fire:
  assumes "NeedsDelay r"
  shows "\<exists>t. run (disp 8 @ work 0 3 @ [AWorker 0 Timeout]) (init (r # rest)) = Some t \<and>
           d_pc t = D_Range \<and> mu t = None \<and> panicked t = None \<and> input t = rest \<and>
           consumed t = [r] \<and> activeDelayers t (UID r) = Some 0 \<and>
           chans t = [\<lparr>buf = [], closed = False\<rparr>] \<and>
           map w_pc (workers t) = [W_Lock1] \<and>
           checkCh t = [id_req r] \<and> executed t = [r] \<and> nextId t = 0"
  using assms
  by (simp add: eval_nat_numeral disp_unfold work_unfold step_def processor_step_def
        userDelayer_step_def init_def Lock_def send_def recv_def Unlock_def callService_def
        chan_cap_def checkCh_cap_def set_wpc_def set_timer_def arm_def executed_def)

text \<open>
  The dispatcher enqueues one request on the queue of a key that has an entry: read,
  lock, lookup, send, unlock.
\<close>

lemma enqueue_one:
  assumes "d_pc s = D_Range" "mu s = None" "panicked s = None" "input s = r # rest"
    "activeDelayers s (UID r) = Some c" "c < length (chans s)" "\<not> closed (chans s ! c)"
    "length (buf (chans s ! c)) < chan_cap"
  shows "run (disp 5) s =
    Some (s\<lparr>input := rest, consumed := consumed s @ [r],
            chans := (chans s)[c := (chans s ! c)\<lparr>buf := buf (chans s ! c) @ [r]\<rparr>],
            mu := None, d_pc := D_Range\<rparr>)"
  using assms
  by (simp add: eval_nat_numeral disp_unfold step_def processor_step_def Lock_def send_def
        Unlock_def)

text \<open>The same for a list of requests of that key, as long as the queue has room.\<close>

lemma enqueue_many:
  assumes "d_pc s = D_Range" "mu s = None" "panicked s = None" "input s = rs @ rest"
    "\<forall>r \<in> set rs. UID r = k"
    "activeDelayers s k = Some c" "c < length (chans s)" "\<not> closed (chans s ! c)"
    "length (buf (chans s ! c)) + length rs \<le> chan_cap"
  shows "\<exists>t. run (disp (5 * length rs)) s = Some t \<and>
           d_pc t = D_Range \<and> mu t = None \<and> panicked t = None \<and> input t = rest \<and>
           consumed t = consumed s @ rs \<and>
           chans t = (chans s)[c := (chans s ! c)\<lparr>buf := buf (chans s ! c) @ rs\<rparr>] \<and>
           activeDelayers t = activeDelayers s \<and> workers t = workers s \<and>
           checkCh t = checkCh s \<and> trace t = trace s \<and> nextId t = nextId s \<and>
           received t = received s"
  using assms
proof (induction rs arbitrary: s)
  case Nil
  then show ?case by (simp add: disp_unfold list_update_same_conv)
next
  case (Cons r rs)
  let ?u = "s\<lparr>input := rs @ rest, consumed := consumed s @ [r],
            chans := (chans s)[c := (chans s ! c)\<lparr>buf := buf (chans s ! c) @ [r]\<rparr>],
            mu := None, d_pc := D_Range\<rparr>"
  have one: "run (disp 5) s = Some ?u"
    using Cons.prems by (intro enqueue_one) auto
  have "\<exists>t. run (disp (5 * length rs)) ?u = Some t \<and>
           d_pc t = D_Range \<and> mu t = None \<and> panicked t = None \<and> input t = rest \<and>
           consumed t = consumed ?u @ rs \<and>
           chans t = (chans ?u)[c := (chans ?u ! c)\<lparr>buf := buf (chans ?u ! c) @ rs\<rparr>] \<and>
           activeDelayers t = activeDelayers ?u \<and> workers t = workers ?u \<and>
           checkCh t = checkCh ?u \<and> trace t = trace ?u \<and> nextId t = nextId ?u \<and>
           received t = received ?u"
    using Cons.prems by (intro Cons.IH) auto
  then obtain t where t: "run (disp (5 * length rs)) ?u = Some t"
    "d_pc t = D_Range" "mu t = None" "panicked t = None" "input t = rest"
    "consumed t = consumed ?u @ rs"
    "chans t = (chans ?u)[c := (chans ?u ! c)\<lparr>buf := buf (chans ?u ! c) @ rs\<rparr>]"
    "activeDelayers t = activeDelayers ?u" "workers t = workers ?u"
    "checkCh t = checkCh ?u" "trace t = trace ?u" "nextId t = nextId ?u"
    "received t = received ?u"
    by blast
  have "disp (5 * length (r # rs)) = disp 5 @ disp (5 * length rs)"
    by (simp add: disp_add flip: add.commute)
  then have "run (disp (5 * length (r # rs))) s = Some t"
    using one t(1) by (simp add: run_append)
  then show ?case
    using t(2-) Cons.prems(7) by simp
qed

text \<open>
  The dispatcher reads the last request, takes the mutex and finds the entry of its
  key: it is at the send of line 41, holding the mutex. The monitor takes the id it
  was sent.
\<close>

lemma reach_send:
  assumes "d_pc s = D_Range" "mu s = None" "panicked s = None" "input s = [r]"
    "activeDelayers s (UID r) = Some c" "checkCh s = [nextId s]"
  shows "\<exists>t. run (disp 3 @ [AMon]) s = Some t \<and>
           d_pc t = D_Send1 r c \<and> mu t = Some Dispatcher \<and> panicked t = None \<and>
           input t = [] \<and> consumed t = consumed s @ [r] \<and> chans t = chans s \<and>
           workers t = workers s \<and> checkCh t = [] \<and> trace t = trace s"
  using assms
  by (simp add: eval_nat_numeral disp_unfold step_def processor_step_def Lock_def
        monitor_step_def)

text \<open>
  Nothing can move when the dispatcher is at the send of line 41 with the mutex, the
  queue is full, every worker is at the \<open>mu.Lock()\<close> of line 100 and the monitor has
  nothing to receive.
\<close>

lemma no_step:
  assumes "d_pc s = D_Send1 r c" "c < length (chans s)" "\<not> closed (chans s ! c)"
    "length (buf (chans s ! c)) = chan_cap" "checkCh s = []" "mu s = Some Dispatcher"
    "\<forall>w < length (workers s). w_pc (workers s ! w) = W_Lock1"
  shows "step a s = None"
  using assms
  by (cases a)
    (simp_all add: step_def processor_step_def send_def monitor_step_def userDelayer_step_def
      Lock_def)

text \<open>
  What the code does keep: once a key has no entry and the dispatcher holds no request
  of it, every request of the key that was read has been executed once, in the order
  read.
\<close>

lemma executed_when_idle:
  assumes "run sched (init inp) = Some s" "activeDelayers s k = None"
    "for_key k (dheld (d_pc s)) = []"
  shows "for_key k (executed s) = for_key k (consumed s)"
  using reachable_order[OF assms(1)] assms(2,3) by (simp add: inv_order_def pendingK_def)

text \<open>
  C3. Every request that was read is executed once only if the threads can go on. The
  dispatcher sends to the queue of a worker with the mutex held (lines 39-43), and a
  worker whose timer has fired needs the mutex to go on (line 100). With a burst of
  1002 requests of one key, the schedule \<open>deadlock_sched\<close> is a run of the program, and
  it ends in a state in which the program has not panicked and no thread can take a
  step: the dispatcher has read all 1002 requests and is blocked at the send of the
  last one on the full queue, holding the mutex; the worker is blocked at \<open>mu.Lock()\<close>.
  One request has been executed; the 1000 of the queue and the one in the hand of the
  dispatcher never are.
\<close>

theorem queue_full_deadlock:
  "run deadlock_sched (init (burst 0 1002)) = Some deadlock_state \<and>
   panicked deadlock_state = None \<and>
   (\<forall>a. step a deadlock_state = None) \<and>
   input deadlock_state = [] \<and>
   consumed deadlock_state = burst 0 1002 \<and>
   executed deadlock_state = burst 0 1 \<and>
   d_pc deadlock_state = D_Send1 (rq ''user1'' ''task'' True 1001) 0 \<and>
   mu deadlock_state = Some Dispatcher \<and>
   map w_pc (workers deadlock_state) = [W_Lock1] \<and>
   buf (chans deadlock_state ! 0) = burst 1 1000"
proof -
  let ?fst = "rq ''user1'' ''task'' True 0"
  let ?lst = "rq ''user1'' ''task'' True 1001"
  have "burst 0 1002 = ?fst # burst 1 1001"
    using burst_Suc[of 0 1001] by simp
  moreover have "burst 1 1001 = burst 1 1000 @ [?lst]"
    using burst_snoc[of 1 1000] by simp
  ultimately have inp: "burst 0 1002 = ?fst # (burst 1 1000 @ [?lst])"
    by simp
  have one: "burst 0 1 = [?fst]"
    by (simp add: burst_def)
  have uid: "UID ?fst = ''user1''" "UID ?lst = ''user1''" "NeedsDelay ?fst" "id_req ?fst = 0"
    by (simp_all add: rq_def)
  obtain t1 where t1:
    "run (disp 8 @ work 0 3 @ [AWorker 0 Timeout]) (init (burst 0 1002)) = Some t1"
    "d_pc t1 = D_Range" "mu t1 = None" "panicked t1 = None"
    "input t1 = burst 1 1000 @ [?lst]" "consumed t1 = [?fst]"
    "activeDelayers t1 ''user1'' = Some 0" "chans t1 = [\<lparr>buf = [], closed = False\<rparr>]"
    "map w_pc (workers t1) = [W_Lock1]" "checkCh t1 = [0]" "executed t1 = [?fst]"
    "nextId t1 = 0"
    using spawn_and_fire[of ?fst "burst 1 1000 @ [?lst]"] uid unfolding inp by auto
  have "\<exists>t. run (disp (5 * length (burst 1 1000))) t1 = Some t \<and>
           d_pc t = D_Range \<and> mu t = None \<and> panicked t = None \<and> input t = [?lst] \<and>
           consumed t = consumed t1 @ burst 1 1000 \<and>
           chans t = (chans t1)[0 := (chans t1 ! 0)\<lparr>buf := buf (chans t1 ! 0) @ burst 1 1000\<rparr>] \<and>
           activeDelayers t = activeDelayers t1 \<and> workers t = workers t1 \<and>
           checkCh t = checkCh t1 \<and> trace t = trace t1 \<and> nextId t = nextId t1 \<and>
           received t = received t1"
    using t1 by (intro enqueue_many[where k = "''user1''"])
      (auto simp: UID_burst length_burst chan_cap_def)
  then obtain t2 where t2: "run (disp (5 * 1000)) t1 = Some t2"
    "d_pc t2 = D_Range" "mu t2 = None" "panicked t2 = None" "input t2 = [?lst]"
    "consumed t2 = ?fst # burst 1 1000"
    "chans t2 = [\<lparr>buf = burst 1 1000, closed = False\<rparr>]"
    "activeDelayers t2 ''user1'' = Some 0" "workers t2 = workers t1"
    "checkCh t2 = [0]" "trace t2 = trace t1" "nextId t2 = 0"
    using t1 by (auto simp: length_burst)
  have "\<exists>t. run (disp 3 @ [AMon]) t2 = Some t \<and>
           d_pc t = D_Send1 ?lst 0 \<and> mu t = Some Dispatcher \<and> panicked t = None \<and>
           input t = [] \<and> consumed t = consumed t2 @ [?lst] \<and> chans t = chans t2 \<and>
           workers t = workers t2 \<and> checkCh t = [] \<and> trace t = trace t2"
    using t2 uid by (intro reach_send) auto
  then obtain t3 where t3: "run (disp 3 @ [AMon]) t2 = Some t3"
    "d_pc t3 = D_Send1 ?lst 0" "mu t3 = Some Dispatcher" "panicked t3 = None"
    "input t3 = []" "consumed t3 = burst 0 1002"
    "chans t3 = [\<lparr>buf = burst 1 1000, closed = False\<rparr>]"
    "workers t3 = workers t1" "checkCh t3 = []" "trace t3 = trace t1"
    using t2 inp by auto
  have "deadlock_sched =
      (disp 8 @ work 0 3 @ [AWorker 0 Timeout]) @ disp (5 * 1000) @ (disp 3 @ [AMon])"
    by (simp add: deadlock_sched_def)
  then have run: "run deadlock_sched (init (burst 0 1002)) = Some t3"
    using run_append_Some[OF t1(1) run_append_Some[OF t2(1) t3(1)]] by simp
  then have eq: "deadlock_state = t3"
    by (simp add: deadlock_state_def)
  have lock: "\<forall>w < length (workers t3). w_pc (workers t3 ! w) = W_Lock1"
  proof (intro allI impI)
    fix w assume "w < length (workers t3)"
    then have "w_pc (workers t3 ! w) = map w_pc (workers t1) ! w"
      using t3(8) by simp
    moreover have "w = 0"
      using \<open>w < length (workers t3)\<close> t3(8) t1(9) by (metis length_map length_Cons list.size(3) less_Suc0)
    ultimately show "w_pc (workers t3 ! w) = W_Lock1"
      using t1(9) by simp
  qed
  have "step a t3 = None" for a
    using t3 lock by (intro no_step[where r = ?lst and c = 0]) (auto simp: length_burst chan_cap_def)
  moreover have "executed t3 = burst 0 1"
    using t3(10) t1(11) one by (simp add: executed_def)
  ultimately show ?thesis
    unfolding eq using run eq t3 t1(9) by simp
qed

end
